theory Spec2Isabelle
  imports Complex_Main "HOL-Library.Log_Nat"
begin

section \<open>The expense ledger of finance_tracker (src/utils.py)\<close>

text \<open>
  A shallow embedding of \<^verbatim>\<open>src/utils.py\<close>: the column normaliser, the date and amount
  parsers, the row validator and the load/save operations of the expense store, together
  with the parts of the Python standard library they call (\<^verbatim>\<open>str.strip\<close>,
  \<^verbatim>\<open>str.lower\<close>, \<^verbatim>\<open>float\<close>, \<^verbatim>\<open>round\<close>, \<^verbatim>\<open>datetime.strptime\<close>,
  \<^verbatim>\<open>csv.reader\<close>, \<^verbatim>\<open>csv.DictReader\<close>, \<^verbatim>\<open>csv.writer\<close>), modelled after CPython 3.11
  on Linux.

  Conventions.
  \<^item> A Python \<^verbatim>\<open>str\<close> is a \<open>string\<close>; a \<open>char\<close> stands for the code point of the same
    number, so the model covers the texts over U+0000 .. U+00FF.
  \<^item> An exception is a value: a function that can raise returns \<open>py_error + 'a\<close>, and
    \<^verbatim>\<open>try ... except ValueError\<close> is a case distinction that lets every other error pass.
  \<^item> \<^verbatim>\<open>None\<close> is \<open>None\<close> of an option type.
\<close>

datatype py_error = ValueError | CsvError | FileNotFoundError

subsection \<open>Text\<close>

text \<open>\<^verbatim>\<open>str.isspace\<close> on one code point below 256: the characters that \<^verbatim>\<open>str.strip()\<close> removes.\<close>

definition isspace :: "char \<Rightarrow> bool" where
  "isspace c =
     (let n = (of_char c :: nat)
      in (9 \<le> n \<and> n \<le> 13) \<or> (28 \<le> n \<and> n \<le> 32) \<or> n = 133 \<or> n = 160)"

definition strip :: "string \<Rightarrow> string" where
  "strip s = rev (dropWhile isspace (rev (dropWhile isspace s)))"

text \<open>\<^verbatim>\<open>str.lower\<close>: below 256 the upper-case letters are A..Z and U+00C0..U+00DE without U+00D7.\<close>

definition isupper :: "char \<Rightarrow> bool" where
  "isupper c =
     (let n = (of_char c :: nat)
      in (65 \<le> n \<and> n \<le> 90) \<or> (192 \<le> n \<and> n \<le> 222 \<and> n \<noteq> 215))"

text \<open>
  The lower-case letter is 32 code points above the upper-case one; bit 5 is clear in
  every upper-case letter, so adding 32 sets it.
\<close>

definition lower_char :: "char \<Rightarrow> char" where
  "lower_char c =
     (if isupper c
      then Char (digit0 c) (digit1 c) (digit2 c) (digit3 c) (digit4 c) True (digit6 c) (digit7 c)
      else c)"

definition lower :: "string \<Rightarrow> string" where
  "lower s = map lower_char s"

text \<open>\<^verbatim>\<open>s.replace(c, "")\<close> for a one-character \<open>c\<close>: every occurrence is deleted.\<close>

definition remove_char :: "char \<Rightarrow> string \<Rightarrow> string" where
  "remove_char c s = filter (\<lambda>x. x \<noteq> c) s"

subsection \<open>Column normaliser\<close>

definition STANDARD_COLUMNS :: "string list" where
  "STANDARD_COLUMNS = [''date'', ''amount'', ''category'', ''description'']"

definition mapping :: "(string \<times> string) list" where
  "mapping =
     [(''date'', ''date''),
      (''transaction date'', ''date''),
      (''txn date'', ''date''),
      (''amount'', ''amount''),
      (''amt'', ''amount''),
      (''value'', ''amount''),
      (''debit'', ''amount''),
      (''category'', ''category''),
      (''type'', ''category''),
      (''description'', ''description''),
      (''desc'', ''description''),
      (''merchant'', ''description''),
      (''narration'', ''description''),
      (''details'', ''description''),
      (''notes'', ''description'')]"

definition standardize_col_name :: "string \<Rightarrow> string" where
  "standardize_col_name col =
     (let c = lower (strip col)
      in case map_of mapping c of Some t \<Rightarrow> t | None \<Rightarrow> c)"

subsection \<open>Decimal digits\<close>

definition isdigit :: "char \<Rightarrow> bool" where
  "isdigit c = (let n = (of_char c :: nat) in 48 \<le> n \<and> n \<le> 57)"

definition digit_val :: "char \<Rightarrow> nat" where
  "digit_val c = of_char c - 48"

definition digit_char :: "nat \<Rightarrow> char" where
  "digit_char n = ''0123456789'' ! (n mod 10)"

text \<open>The value of a run of decimal digits, most significant digit first.\<close>

definition nat_of_digits :: "string \<Rightarrow> nat" where
  "nat_of_digits s = foldl (\<lambda>n c. 10 * n + digit_val c) 0 s"

text \<open>The decimal digits of a number, as \<^verbatim>\<open>str(n)\<close> or \<^verbatim>\<open>'%d' % n\<close> print it.\<close>

fun digits :: "nat \<Rightarrow> string" where
  "digits n = (if n < 10 then [digit_char n] else digits (n div 10) @ [digit_char (n mod 10)])"

declare digits.simps [simp del]

definition zfill :: "nat \<Rightarrow> string \<Rightarrow> string" where
  "zfill w s = replicate (w - length s) (CHR ''0'') @ s"

subsection \<open>Dates: \<^verbatim>\<open>datetime.strptime\<close>, \<^verbatim>\<open>strftime\<close>, \<^verbatim>\<open>fromisoformat\<close>\<close>

text \<open>
  Of a \<^verbatim>\<open>datetime\<close> the source only prints year, month and day, so the time of day is
  left out. The constructor raises \<^verbatim>\<open>ValueError\<close> outside the proleptic Gregorian
  calendar of the years 1 to 9999.
\<close>

record datetime =
  year :: nat
  month :: nat
  day :: nat

definition is_leap :: "nat \<Rightarrow> bool" where
  "is_leap y = (y mod 4 = 0 \<and> (y mod 100 \<noteq> 0 \<or> y mod 400 = 0))"

definition days_in_month :: "nat \<Rightarrow> nat \<Rightarrow> nat" where
  "days_in_month y m =
     (if m = 2 then (if is_leap y then 29 else 28)
      else if m = 4 \<or> m = 6 \<or> m = 9 \<or> m = 11 then 30 else 31)"

definition datetime_new :: "nat \<Rightarrow> nat \<Rightarrow> nat \<Rightarrow> py_error + datetime" where
  "datetime_new y m d =
     (if 1 \<le> y \<and> y \<le> 9999 \<and> 1 \<le> m \<and> m \<le> 12 \<and> 1 \<le> d \<and> d \<le> days_in_month y m
      then Inr \<lparr>year = y, month = m, day = d\<rparr>
      else Inl ValueError)"

text \<open>
  \<^verbatim>\<open>strptime\<close> turns the format into a regular expression, one group of ordered
  alternatives for each directive, and matches it at the start of the text with
  backtracking (\<^verbatim>\<open>re.match\<close>):
  \<^verbatim>\<open>%Y\<close> is \<^verbatim>\<open>\d\d\d\d\<close>, \<^verbatim>\<open>%m\<close> is \<^verbatim>\<open>1[0-2]|0[1-9]|[1-9]\<close> and
  \<^verbatim>\<open>%d\<close> is \<^verbatim>\<open>3[0-1]|[1-2]\d|0[1-9]|[1-9]| [1-9]\<close>.
\<close>

datatype cclass = Digit | Range char char | Lit char

fun cc_match :: "cclass \<Rightarrow> char \<Rightarrow> bool" where
  "cc_match Digit c = isdigit c"
| "cc_match (Range a b) c = ((of_char a :: nat) \<le> of_char c \<and> (of_char c :: nat) \<le> of_char b)"
| "cc_match (Lit a) c = (c = a)"

datatype directive = Dir_Y | Dir_m | Dir_d | Chr char

fun alternatives :: "directive \<Rightarrow> cclass list list" where
  "alternatives Dir_Y = [[Digit, Digit, Digit, Digit]]"
| "alternatives Dir_m =
     [[Lit (CHR ''1''), Range (CHR ''0'') (CHR ''2'')],
      [Lit (CHR ''0''), Range (CHR ''1'') (CHR ''9'')],
      [Range (CHR ''1'') (CHR ''9'')]]"
| "alternatives Dir_d =
     [[Lit (CHR ''3''), Range (CHR ''0'') (CHR ''1'')],
      [Range (CHR ''1'') (CHR ''2''), Digit],
      [Lit (CHR ''0''), Range (CHR ''1'') (CHR ''9'')],
      [Range (CHR ''1'') (CHR ''9'')],
      [Lit (CHR '' ''), Range (CHR ''1'') (CHR ''9'')]]"
| "alternatives (Chr c) = [[Lit c]]"

text \<open>One alternative against the start of a text: the matched text and the rest.\<close>

fun match_alt :: "cclass list \<Rightarrow> string \<Rightarrow> (string \<times> string) option" where
  "match_alt [] s = Some ([], s)"
| "match_alt (k # ks) [] = None"
| "match_alt (k # ks) (c # cs) =
     (if cc_match k c
      then (case match_alt ks cs of None \<Rightarrow> None | Some (m, r) \<Rightarrow> Some (c # m, r))
      else None)"

fun first_some :: "('a \<Rightarrow> 'b option) \<Rightarrow> 'a list \<Rightarrow> 'b option" where
  "first_some f [] = None"
| "first_some f (x # xs) = (case f x of Some y \<Rightarrow> Some y | None \<Rightarrow> first_some f xs)"

text \<open>
  The whole expression: the alternatives of a group are tried in order, and a later one
  is tried when the rest of the expression fails after an earlier one.
\<close>

primrec re_match :: "directive list \<Rightarrow> string \<Rightarrow> ((directive \<times> string) list \<times> string) option" where
  "re_match [] s = Some ([], s)"
| "re_match (d # ds) s =
     first_some
       (\<lambda>a. case match_alt a s of
               None \<Rightarrow> None
             | Some (m, r) \<Rightarrow>
                 (case re_match ds r of
                    None \<Rightarrow> None
                  | Some (g, rest) \<Rightarrow> Some ((d, m) # g, rest)))
       (alternatives d)"

text \<open>
  \<^verbatim>\<open>int(s)\<close> on a matched group: digits, after a blank in the last alternative of
  \<^verbatim>\<open>%d\<close>.
\<close>

definition py_int :: "string \<Rightarrow> nat" where
  "py_int s = nat_of_digits (strip s)"

text \<open>
  \<^verbatim>\<open>datetime.strptime(v, fmt)\<close>: no match, text left over after the match, and a date
  that does not exist are each a \<^verbatim>\<open>ValueError\<close>. A directive absent from the format has
  the defaults 1900, 1 and 1.
\<close>

definition strptime :: "string \<Rightarrow> directive list \<Rightarrow> py_error + datetime" where
  "strptime v fmt =
     (case re_match fmt v of
        None \<Rightarrow> Inl ValueError
      | Some (g, rest) \<Rightarrow>
          if rest \<noteq> [] then Inl ValueError
          else datetime_new
                 (case map_of g Dir_Y of Some t \<Rightarrow> py_int t | None \<Rightarrow> 1900)
                 (case map_of g Dir_m of Some t \<Rightarrow> py_int t | None \<Rightarrow> 1)
                 (case map_of g Dir_d of Some t \<Rightarrow> py_int t | None \<Rightarrow> 1))"

text \<open>
  \<^verbatim>\<open>strftime("%Y-%m-%d")\<close> as CPython 3.11 computes it with the C library of Linux
  (glibc): month and day with two digits, and the year as the C library prints it, without
  leading zeros, so a year below 1000 has fewer than four digits.
\<close>

definition strftime :: "datetime \<Rightarrow> string" where
  "strftime dt =
     digits (year dt) @ ''-'' @ zfill 2 (digits (month dt)) @ ''-'' @ zfill 2 (digits (day dt))"

definition FMT_YMD :: "directive list" where
  "FMT_YMD = [Dir_Y, Chr (CHR ''-''), Dir_m, Chr (CHR ''-''), Dir_d]"

definition FMT_DMY :: "directive list" where
  "FMT_DMY = [Dir_d, Chr (CHR ''/''), Dir_m, Chr (CHR ''/''), Dir_Y]"

definition FMT_MDY :: "directive list" where
  "FMT_MDY = [Dir_m, Chr (CHR ''/''), Dir_d, Chr (CHR ''/''), Dir_Y]"

text \<open>
  \<^verbatim>\<open>datetime.fromisoformat\<close> accepts a different set of texts in each version of the
  library. Its text analysis is the parameter \<open>isoparse\<close>, which gives year, month and day of
  the text or \<open>None\<close> for the \<^verbatim>\<open>ValueError\<close>; the constructor then checks them as it
  does for every \<^verbatim>\<open>datetime\<close>.
\<close>

type_synonym iso_parser = "string \<Rightarrow> (nat \<times> nat \<times> nat) option"

definition fromisoformat :: "iso_parser \<Rightarrow> string \<Rightarrow> py_error + datetime" where
  "fromisoformat isoparse s =
     (case isoparse s of None \<Rightarrow> Inl ValueError | Some (y, m, d) \<Rightarrow> datetime_new y m d)"

text \<open>The loop \<^verbatim>\<open>for fmt in (...)\<close> of \<^verbatim>\<open>_parse_date\<close>: the first format that parses returns.\<close>

fun try_formats :: "string \<Rightarrow> directive list list \<Rightarrow> py_error + string option" where
  "try_formats v [] = Inr None"
| "try_formats v (fmt # fmts) =
     (case strptime v fmt of
        Inr dt \<Rightarrow> Inr (Some (strftime dt))
      | Inl ValueError \<Rightarrow> try_formats v fmts
      | Inl e \<Rightarrow> Inl e)"

definition parse_date :: "iso_parser \<Rightarrow> string \<Rightarrow> py_error + string option" where
  "parse_date isoparse value =
     (let v = strip value
      in if v = [] then Inr None
         else case try_formats v [FMT_YMD, FMT_DMY, FMT_MDY] of
                Inl e \<Rightarrow> Inl e
              | Inr (Some r) \<Rightarrow> Inr (Some r)
              | Inr None \<Rightarrow>
                  (case fromisoformat isoparse (remove_char (CHR ''Z'') v) of
                     Inr dt \<Rightarrow> Inr (Some (strftime dt))
                   | Inl ValueError \<Rightarrow> Inr None
                   | Inl e \<Rightarrow> Inl e))"

subsection \<open>Amounts: \<^verbatim>\<open>float\<close>, \<^verbatim>\<open>round\<close> and the format \<^verbatim>\<open>.2f\<close>\<close>

text \<open>
  A Python \<^verbatim>\<open>float\<close> is an IEEE 754 binary64 value: a finite one is the rational
  number it stands for, and there are the two infinities and NaN. The two zeros are one
  value here: the source compares amounts and rounds positive ones, which never tells the
  zeros apart.
\<close>

datatype pyfloat = Fin rat | PInf | NInf | NaN

text \<open>Rounding to an integer, ties to the even one.\<close>

definition round_half_even :: "rat \<Rightarrow> int" where
  "round_half_even q =
     (let f = \<lfloor>q\<rfloor>; r = q - of_int f
      in if r < 1 / 2 then f
         else if 1 / 2 < r then f + 1
         else if even f then f else f + 1)"

definition pow2 :: "int \<Rightarrow> rat" where
  "pow2 k = (if 0 \<le> k then 2 ^ nat k else 1 / 2 ^ nat (- k))"

text \<open>The exponent of the leading bit of a positive rational: \<open>pow2 (ilog2 q) \<le> q < pow2 (ilog2 q + 1)\<close>.\<close>

definition ilog2 :: "rat \<Rightarrow> int" where
  "ilog2 q =
     (let (n, d) = quotient_of q; k = bitlen n - bitlen d
      in if pow2 k \<le> q then k else k - 1)"

text \<open>
  The binary64 value nearest to a rational, ties to the even significand: 53 significant
  bits, the exponent of the last bit at least -1074, overflow to infinity from \<open>2^1024\<close> on.
  This is the conversion that \<^verbatim>\<open>float(str)\<close> and \<^verbatim>\<open>round\<close> perform on a decimal.
\<close>

definition to_double :: "rat \<Rightarrow> pyfloat" where
  "to_double q =
     (if q = 0 then Fin 0
      else let a = \<bar>q\<bar>;
               e = max (ilog2 a - 52) (- 1074);
               r = of_int (round_half_even (a / pow2 e)) * pow2 e
           in if pow2 1024 \<le> r then (if q < 0 then NInf else PInf)
              else Fin (if q < 0 then - r else r))"

text \<open>The comparison \<^verbatim>\<open>amt <= 0\<close>; every comparison with NaN is false.\<close>

fun le_zero :: "pyfloat \<Rightarrow> bool" where
  "le_zero (Fin q) = (q \<le> 0)"
| "le_zero PInf = False"
| "le_zero NInf = True"
| "le_zero NaN = False"

text \<open>
  \<^verbatim>\<open>round(x, 2)\<close>: the decimal with two fractional digits nearest to the exact value of
  \<open>x\<close> (ties to even), converted back to binary64; an infinity and NaN round to
  themselves.
\<close>

fun round2 :: "pyfloat \<Rightarrow> pyfloat" where
  "round2 (Fin q) = to_double (of_int (round_half_even (q * 100)) / 100)"
| "round2 x = x"

text \<open>\<^verbatim>\<open>f"{x:.2f}"\<close>: the same decimal, printed with exactly two fractional digits.\<close>

fun format_2f :: "pyfloat \<Rightarrow> string" where
  "format_2f (Fin q) =
     (let k = nat (round_half_even (\<bar>q\<bar> * 100))
      in (if q < 0 then ''-'' else []) @ digits (k div 100) @ ''.'' @ zfill 2 (digits (k mod 100)))"
| "format_2f PInf = ''inf''"
| "format_2f NInf = ''-inf''"
| "format_2f NaN = ''nan''"

text \<open>
  \<^verbatim>\<open>float(s)\<close> on a text. White space around the number is dropped first: the ASCII
  blanks of C (not the separators U+001C .. U+001F that \<^verbatim>\<open>str.strip\<close> also removes) and
  the blanks above U+007F, which the library turns into spaces.
\<close>

definition float_space :: "char \<Rightarrow> bool" where
  "float_space c =
     (let n = (of_char c :: nat)
      in (9 \<le> n \<and> n \<le> 13) \<or> n = 32 \<or> n = 133 \<or> n = 160)"

definition float_strip :: "string \<Rightarrow> string" where
  "float_strip s = rev (dropWhile float_space (rev (dropWhile float_space s)))"

text \<open>An underscore may stand between two digits only; \<open>prev\<close> is the character before.\<close>

fun underscores_ok :: "char option \<Rightarrow> string \<Rightarrow> bool" where
  "underscores_ok prev [] = (prev \<noteq> Some (CHR ''_''))"
| "underscores_ok prev (c # cs) =
     (if c = CHR ''_''
      then (case prev of Some p \<Rightarrow> isdigit p | None \<Rightarrow> False) \<and> underscores_ok (Some c) cs
      else (prev = Some (CHR ''_'') \<longrightarrow> isdigit c) \<and> underscores_ok (Some c) cs)"

definition split_sign :: "string \<Rightarrow> bool \<times> string" where
  "split_sign s =
     (case s of
        [] \<Rightarrow> (False, [])
      | c # cs \<Rightarrow> if c = CHR ''-'' then (True, cs) else if c = CHR ''+'' then (False, cs) else (False, s))"

text \<open>
  A decimal number: digits, a point, digits (at least one digit in all), and an exponent
  with at least one digit. The result is the digits before the point, the digits after it
  and the exponent.
\<close>

definition parse_decimal :: "string \<Rightarrow> (string \<times> string \<times> int) option" where
  "parse_decimal s =
     (let ip = takeWhile isdigit s; r1 = dropWhile isdigit s;
          (fp, r2) = (case r1 of
                        [] \<Rightarrow> ([], [])
                      | c # cs \<Rightarrow> if c = CHR ''.'' then (takeWhile isdigit cs, dropWhile isdigit cs)
                                  else ([], r1))
      in if ip = [] \<and> fp = [] then None
         else case r2 of
                [] \<Rightarrow> Some (ip, fp, 0)
              | c # cs \<Rightarrow>
                  if c = CHR ''e'' \<or> c = CHR ''E''
                  then (let (neg, ds) = split_sign cs
                        in if ds \<noteq> [] \<and> list_all isdigit ds
                           then Some (ip, fp, if neg then - int (nat_of_digits ds) else int (nat_of_digits ds))
                           else None)
                  else None)"

definition pow10 :: "int \<Rightarrow> rat" where
  "pow10 k = (if 0 \<le> k then 10 ^ nat k else 1 / 10 ^ nat (- k))"

definition decimal_value :: "string \<times> string \<times> int \<Rightarrow> rat" where
  "decimal_value t =
     (case t of (ip, fp, e) \<Rightarrow> of_nat (nat_of_digits (ip @ fp)) * pow10 (e - int (length fp)))"

definition float_of_str :: "string \<Rightarrow> py_error + pyfloat" where
  "float_of_str s =
     (let t = float_strip s
      in if t = [] \<or> \<not> underscores_ok None t then Inl ValueError
         else let (neg, body) = split_sign (remove_char (CHR ''_'') t); w = lower body
              in if w = ''inf'' \<or> w = ''infinity'' then Inr (if neg then NInf else PInf)
                 else if w = ''nan'' then Inr NaN
                 else case parse_decimal body of
                        None \<Rightarrow> Inl ValueError
                      | Some t \<Rightarrow> Inr (to_double (if neg then - decimal_value t else decimal_value t)))"

definition parse_amount :: "string \<Rightarrow> py_error + pyfloat option" where
  "parse_amount value =
     (let v = remove_char (CHR '','') (remove_char (CHR ''$'') (strip value))
      in if v = [] then Inr None
         else case float_of_str v of
                Inl ValueError \<Rightarrow> Inr None
              | Inl e \<Rightarrow> Inl e
              | Inr amt \<Rightarrow> if le_zero amt then Inr None else Inr (Some (round2 amt)))"

subsection \<open>The csv module in the dialect \<^verbatim>\<open>excel\<close>\<close>

definition LF :: char where "LF = CHR 0x0A"
definition CR :: char where "CR = CHR 0x0D"
definition quotechar :: char where "quotechar = CHR 0x22"
definition delimiter :: char where "delimiter = CHR '',''"

text \<open>
  The lines of a file opened with \<^verbatim>\<open>newline=""\<close>: a line ends after \<^verbatim>\<open>\n\<close>, after
  \<^verbatim>\<open>\r\n\<close> and after a \<^verbatim>\<open>\r\<close> that no \<^verbatim>\<open>\n\<close> follows, and keeps its ending.
\<close>

fun lines_from :: "string \<Rightarrow> string \<Rightarrow> string list" where
  "lines_from cur [] = (if cur = [] then [] else [cur])"
| "lines_from cur [c] = [cur @ [c]]"
| "lines_from cur (c # d # cs) =
     (if c = LF then (cur @ [c]) # lines_from [] (d # cs)
      else if c = CR then
        (if d = LF then (cur @ [c, d]) # lines_from [] cs
         else (cur @ [c]) # lines_from [] (d # cs))
      else lines_from (cur @ [c]) (d # cs))"

definition file_lines :: "string \<Rightarrow> string list" where
  "file_lines text = lines_from [] text"

text \<open>
  The reader is the state machine of \<^verbatim>\<open>_csv.c\<close>. The dialect has no escape character,
  does not skip initial spaces and is not strict, so the states for escapes are left out.
  A field longer than the field size limit is the error \<^verbatim>\<open>_csv.Error\<close>.
\<close>

datatype parser_state =
  START_RECORD | START_FIELD | IN_FIELD | IN_QUOTED_FIELD | QUOTE_IN_QUOTED_FIELD | EAT_CRNL

record reader =
  p_state :: parser_state
  p_fields :: "string list"
  p_field :: string

definition field_limit :: nat where
  "field_limit = 131072"

definition parse_reset :: reader where
  "parse_reset = \<lparr>p_state = START_RECORD, p_fields = [], p_field = []\<rparr>"

definition parse_add_char :: "reader \<Rightarrow> char \<Rightarrow> py_error + reader" where
  "parse_add_char r c =
     (if field_limit \<le> length (p_field r) then Inl CsvError
      else Inr (r\<lparr>p_field := p_field r @ [c]\<rparr>))"

definition parse_save_field :: "reader \<Rightarrow> reader" where
  "parse_save_field r = r\<lparr>p_fields := p_fields r @ [p_field r], p_field := []\<rparr>"

text \<open>The case \<^verbatim>\<open>START_FIELD\<close>, which \<^verbatim>\<open>START_RECORD\<close> falls through to. \<open>None\<close> is the end of a line.\<close>

definition start_field :: "reader \<Rightarrow> char option \<Rightarrow> py_error + reader" where
  "start_field r c =
     (case c of
        None \<Rightarrow> Inr ((parse_save_field r)\<lparr>p_state := START_RECORD\<rparr>)
      | Some x \<Rightarrow>
          if x = LF \<or> x = CR then Inr ((parse_save_field r)\<lparr>p_state := EAT_CRNL\<rparr>)
          else if x = quotechar then Inr (r\<lparr>p_state := IN_QUOTED_FIELD\<rparr>)
          else if x = delimiter then Inr (parse_save_field r)
          else (case parse_add_char r x of
                  Inl e \<Rightarrow> Inl e
                | Inr r' \<Rightarrow> Inr (r'\<lparr>p_state := IN_FIELD\<rparr>)))"

definition parse_process_char :: "reader \<Rightarrow> char option \<Rightarrow> py_error + reader" where
  "parse_process_char r c =
     (case p_state r of
        START_RECORD \<Rightarrow>
          (case c of
             None \<Rightarrow> Inr r
           | Some x \<Rightarrow>
               if x = LF \<or> x = CR then Inr (r\<lparr>p_state := EAT_CRNL\<rparr>)
               else start_field (r\<lparr>p_state := START_FIELD\<rparr>) c)
      | START_FIELD \<Rightarrow> start_field r c
      | IN_FIELD \<Rightarrow>
          (case c of
             None \<Rightarrow> Inr ((parse_save_field r)\<lparr>p_state := START_RECORD\<rparr>)
           | Some x \<Rightarrow>
               if x = LF \<or> x = CR then Inr ((parse_save_field r)\<lparr>p_state := EAT_CRNL\<rparr>)
               else if x = delimiter then Inr ((parse_save_field r)\<lparr>p_state := START_FIELD\<rparr>)
               else parse_add_char r x)
      | IN_QUOTED_FIELD \<Rightarrow>
          (case c of
             None \<Rightarrow> Inr r
           | Some x \<Rightarrow>
               if x = quotechar then Inr (r\<lparr>p_state := QUOTE_IN_QUOTED_FIELD\<rparr>)
               else parse_add_char r x)
      | QUOTE_IN_QUOTED_FIELD \<Rightarrow>
          (case c of
             None \<Rightarrow> Inr ((parse_save_field r)\<lparr>p_state := START_RECORD\<rparr>)
           | Some x \<Rightarrow>
               if x = quotechar then
                 (case parse_add_char r x of
                    Inl e \<Rightarrow> Inl e
                  | Inr r' \<Rightarrow> Inr (r'\<lparr>p_state := IN_QUOTED_FIELD\<rparr>))
               else if x = delimiter then Inr ((parse_save_field r)\<lparr>p_state := START_FIELD\<rparr>)
               else if x = LF \<or> x = CR then Inr ((parse_save_field r)\<lparr>p_state := EAT_CRNL\<rparr>)
               else (case parse_add_char r x of
                       Inl e \<Rightarrow> Inl e
                     | Inr r' \<Rightarrow> Inr (r'\<lparr>p_state := IN_FIELD\<rparr>)))
      | EAT_CRNL \<Rightarrow>
          (case c of
             None \<Rightarrow> Inr (r\<lparr>p_state := START_RECORD\<rparr>)
           | Some x \<Rightarrow> if x = LF \<or> x = CR then Inr r else Inl CsvError))"

fun process_chars :: "reader \<Rightarrow> string \<Rightarrow> py_error + reader" where
  "process_chars r [] = Inr r"
| "process_chars r (c # cs) =
     (case parse_process_char r (Some c) of
        Inl e \<Rightarrow> Inl e
      | Inr r' \<Rightarrow> process_chars r' cs)"

text \<open>One line: its characters, then the end of the line.\<close>

definition process_line :: "reader \<Rightarrow> string \<Rightarrow> py_error + reader" where
  "process_line r line =
     (case process_chars r line of
        Inl e \<Rightarrow> Inl e
      | Inr r' \<Rightarrow> parse_process_char r' None)"

text \<open>
  \<^verbatim>\<open>next(reader)\<close>: lines are consumed until the machine is back at the start of a
  record. \<open>None\<close> is \<^verbatim>\<open>StopIteration\<close>; otherwise the result is the record and the
  lines not yet read. When the input ends inside a quoted field the record read so far is
  returned.
\<close>

fun reader_next :: "reader \<Rightarrow> string list \<Rightarrow> (py_error + string list \<times> string list) option" where
  "reader_next r [] =
     (if p_field r \<noteq> [] \<or> p_state r = IN_QUOTED_FIELD
      then Some (Inr (p_fields (parse_save_field r), []))
      else None)"
| "reader_next r (l # ls) =
     (case process_line r l of
        Inl e \<Rightarrow> Some (Inl e)
      | Inr r' \<Rightarrow>
          if p_state r' = START_RECORD then Some (Inr (p_fields r', ls))
          else reader_next r' ls)"

text \<open>All the records left: what a \<^verbatim>\<open>for\<close> loop over the reader sees, or the error that ends it.\<close>

fun reader_rows :: "reader \<Rightarrow> string list \<Rightarrow> py_error + string list list" where
  "reader_rows r [] =
     (if p_field r \<noteq> [] \<or> p_state r = IN_QUOTED_FIELD
      then Inr [p_fields (parse_save_field r)]
      else Inr [])"
| "reader_rows r (l # ls) =
     (case process_line r l of
        Inl e \<Rightarrow> Inl e
      | Inr r' \<Rightarrow>
          if p_state r' = START_RECORD
          then (case reader_rows parse_reset ls of
                  Inl e \<Rightarrow> Inl e
                | Inr rows \<Rightarrow> Inr (p_fields r' # rows))
          else reader_rows r' ls)"

text \<open>
  The writer with \<^verbatim>\<open>QUOTE_MINIMAL\<close>: a field is quoted when it holds the delimiter, the
  quote character or a character of the line terminator; a quote inside is doubled. A
  record of one empty field is written as two quotes.
\<close>

definition needs_quotes :: "string \<Rightarrow> bool" where
  "needs_quotes f = list_ex (\<lambda>c. c = delimiter \<or> c = quotechar \<or> c = CR \<or> c = LF) f"

definition quote_field :: "string \<Rightarrow> string" where
  "quote_field f =
     (if needs_quotes f
      then [quotechar] @ concat (map (\<lambda>c. if c = quotechar then [c, c] else [c]) f) @ [quotechar]
      else f)"

fun join_fields :: "string list \<Rightarrow> string" where
  "join_fields [] = []"
| "join_fields [f] = f"
| "join_fields (f # g # fs) = f @ [delimiter] @ join_fields (g # fs)"

definition writerow :: "string list \<Rightarrow> string" where
  "writerow row =
     (let rec = join_fields (map quote_field row)
      in (if row \<noteq> [] \<and> rec = [] then [quotechar, quotechar] else rec) @ [CR, LF])"

subsection \<open>The expense store\<close>

record expense =
  date :: string
  amount :: pyfloat
  category :: string
  description :: string

text \<open>
  A value of a row of \<^verbatim>\<open>csv.DictReader\<close> is a text, or \<^verbatim>\<open>None\<close> for a column the row
  is too short for. \<^verbatim>\<open>dict(pairs)\<close> keeps the last value of a key. The entry under the
  key \<^verbatim>\<open>None\<close> that collects the surplus of a long row is left out: the source looks
  up texts only.
\<close>

datatype cell = Str string | PyNone

definition dict_of :: "('k \<times> 'v) list \<Rightarrow> ('k \<rightharpoonup> 'v)" where
  "dict_of kvs = fold (\<lambda>(k, v) m. m(k \<mapsto> v)) kvs Map.empty"

definition dict_get :: "('k \<rightharpoonup> 'v) \<Rightarrow> 'k \<Rightarrow> 'v \<Rightarrow> 'v" where
  "dict_get m k dflt = (case m k of Some v \<Rightarrow> v | None \<Rightarrow> dflt)"

definition row_dict :: "string list \<Rightarrow> string list \<Rightarrow> (string \<rightharpoonup> cell)" where
  "row_dict fieldnames row =
     dict_of (zip fieldnames (map Str row) @ map (\<lambda>k. (k, PyNone)) (drop (length row) fieldnames))"

fun py_str :: "cell \<Rightarrow> string" where
  "py_str (Str s) = s"
| "py_str PyNone = ''None''"

text \<open>\<^verbatim>\<open>{_standardize_col_name(h): h for h in reader.fieldnames}\<close>\<close>

definition field_map :: "string list \<Rightarrow> (string \<rightharpoonup> string)" where
  "field_map fieldnames = dict_of (map (\<lambda>h. (standardize_col_name h, h)) fieldnames)"

text \<open>The body of the loop of \<^verbatim>\<open>load_expenses\<close>: the expense of a row, or \<open>None\<close> for \<^verbatim>\<open>continue\<close>.\<close>

definition validate_row ::
  "iso_parser \<Rightarrow> (string \<rightharpoonup> string) \<Rightarrow> (string \<rightharpoonup> cell) \<Rightarrow> py_error + expense option" where
  "validate_row isoparse fm row =
     (let raw_date = dict_get row (dict_get fm ''date'' []) (Str []);
          raw_amount = dict_get row (dict_get fm ''amount'' []) (Str []);
          raw_category = dict_get row (dict_get fm ''category'' []) (Str []);
          raw_desc = dict_get row (dict_get fm ''description'' []) (Str [])
      in case parse_date isoparse (py_str raw_date) of
           Inl e \<Rightarrow> Inl e
         | Inr d \<Rightarrow>
             (case parse_amount (py_str raw_amount) of
                Inl e \<Rightarrow> Inl e
              | Inr a \<Rightarrow>
                  (let c = strip (py_str raw_category); ds = strip (py_str raw_desc)
                   in case (d, a) of
                        (Some dv, Some av) \<Rightarrow>
                          if dv = [] \<or> c = [] \<or> ds = [] then Inr None
                          else Inr (Some \<lparr>date = dv, amount = av, category = c, description = ds\<rparr>)
                      | _ \<Rightarrow> Inr None)))"

fun load_rows ::
  "iso_parser \<Rightarrow> (string \<rightharpoonup> string) \<Rightarrow> string list \<Rightarrow> string list list \<Rightarrow> py_error + expense list" where
  "load_rows isoparse fm fieldnames [] = Inr []"
| "load_rows isoparse fm fieldnames (row # rows) =
     (case validate_row isoparse fm (row_dict fieldnames row) of
        Inl e \<Rightarrow> Inl e
      | Inr None \<Rightarrow> load_rows isoparse fm fieldnames rows
      | Inr (Some x) \<Rightarrow>
          (case load_rows isoparse fm fieldnames rows of
             Inl e \<Rightarrow> Inl e
           | Inr xs \<Rightarrow> Inr (x # xs)))"

text \<open>
  The files: a path has the text of its file, or none. Directories are not modelled, so
  \<^verbatim>\<open>mkdir(parents=True, exist_ok=True)\<close> has no effect here.
\<close>

type_synonym files = "string \<rightharpoonup> string"

definition ensure_csv_header :: "files \<Rightarrow> string \<Rightarrow> files" where
  "ensure_csv_header fs path =
     (if fs path = None \<or> fs path = Some [] then fs(path \<mapsto> writerow STANDARD_COLUMNS) else fs)"

text \<open>
  \<^verbatim>\<open>load_expenses\<close> gives the files after the call and the list or the error. The header
  is read first; when there is none the remaining lines are never read. The rows are read
  one after the other, and \<^verbatim>\<open>DictReader\<close> passes over the empty ones.
\<close>

definition read_expenses :: "iso_parser \<Rightarrow> string \<Rightarrow> py_error + expense list" where
  "read_expenses isoparse text =
     (case reader_next parse_reset (file_lines text) of
        None \<Rightarrow> Inr []
      | Some (Inl e) \<Rightarrow> Inl e
      | Some (Inr (fieldnames, rest)) \<Rightarrow>
          if fieldnames = [] then Inr []
          else (case reader_rows parse_reset rest of
                  Inl e \<Rightarrow> Inl e
                | Inr rows \<Rightarrow>
                    load_rows isoparse (field_map fieldnames) fieldnames (filter (\<lambda>r. r \<noteq> []) rows)))"

definition load_expenses :: "iso_parser \<Rightarrow> files \<Rightarrow> string \<Rightarrow> files \<times> (py_error + expense list)" where
  "load_expenses isoparse fs path =
     (let fs' = ensure_csv_header fs path
      in (fs', case fs' path of
                 None \<Rightarrow> Inl FileNotFoundError
               | Some text \<Rightarrow> read_expenses isoparse text))"

definition expense_row :: "expense \<Rightarrow> string list" where
  "expense_row e = [date e, format_2f (amount e), category e, description e]"

definition save_expenses :: "expense list \<Rightarrow> files \<Rightarrow> string \<Rightarrow> files" where
  "save_expenses expenses fs path =
     fs(path \<mapsto> writerow STANDARD_COLUMNS @ concat (map (\<lambda>e. writerow (expense_row e)) expenses))"

subsection \<open>Notions of the statements\<close>

text \<open>The separators U+001C .. U+001F: blanks for \<^verbatim>\<open>str.strip\<close>, not for \<^verbatim>\<open>float\<close>.\<close>

definition separator :: "char \<Rightarrow> bool" where
  "separator c = (let n = (of_char c :: nat) in 28 \<le> n \<and> n \<le> 31)"

text \<open>
  The reader run over a text character by character: \<open>feed r ne t\<close> is what the reader
  in state \<open>r\<close> returns for the rest \<open>t\<close> of a file, where \<open>ne\<close> tells whether the current
  line has characters already. It is \<open>reader_rows\<close> on \<open>file_lines\<close> in one pass (lemma
  \<open>reader_rows_feed\<close>), and the form in which the proofs follow a field across line ends.
\<close>

definition end_line ::
  "reader \<Rightarrow> (reader \<Rightarrow> py_error + string list list) \<Rightarrow> py_error + string list list" where
  "end_line r k =
     (case parse_process_char r None of
        Inl e \<Rightarrow> Inl e
      | Inr r' \<Rightarrow>
          if p_state r' = START_RECORD
          then (case k parse_reset of Inl e \<Rightarrow> Inl e | Inr rows \<Rightarrow> Inr (p_fields r' # rows))
          else k r')"

fun feed :: "reader \<Rightarrow> bool \<Rightarrow> string \<Rightarrow> py_error + string list list" where
  "feed r ne [] = (if ne then end_line r (\<lambda>r'. reader_rows r' []) else reader_rows r [])"
| "feed r ne [c] =
     (case parse_process_char r (Some c) of
        Inl e \<Rightarrow> Inl e
      | Inr r1 \<Rightarrow> end_line r1 (\<lambda>r'. reader_rows r' []))"
| "feed r ne (c # d # cs) =
     (case parse_process_char r (Some c) of
        Inl e \<Rightarrow> Inl e
      | Inr r1 \<Rightarrow>
          if c = LF then end_line r1 (\<lambda>r'. feed r' False (d # cs))
          else if c = CR then
            (if d = LF
             then (case parse_process_char r1 (Some d) of
                     Inl e \<Rightarrow> Inl e
                   | Inr r2 \<Rightarrow> end_line r2 (\<lambda>r'. feed r' False cs))
             else end_line r1 (\<lambda>r'. feed r' False (d # cs)))
          else feed r1 True (d # cs))"

text \<open>The canonical form of a date: four digits, two digits and two digits, with hyphens.\<close>

definition canonical_date :: "string \<Rightarrow> bool" where
  "canonical_date r =
     (length r = 10 \<and> list_all isdigit (take 4 r) \<and> r ! 4 = CHR ''-'' \<and>
      list_all isdigit (take 2 (drop 5 r)) \<and> r ! 7 = CHR ''-'' \<and> list_all isdigit (drop 8 r))"

text \<open>The comparison \<^verbatim>\<open>x > 0\<close> of floats: a strictly positive amount.\<close>

fun gt_zero :: "pyfloat \<Rightarrow> bool" where
  "gt_zero (Fin q) = (0 < q)"
| "gt_zero PInf = True"
| "gt_zero NInf = False"
| "gt_zero NaN = False"

text \<open>
  A canonical date that is a date of the calendar: the year, the month and the day that
  its digits spell are accepted by the constructor of \<^verbatim>\<open>datetime\<close>. \<open>year_of\<close> is the
  year that the first four characters spell.
\<close>

definition year_of :: "string \<Rightarrow> nat" where
  "year_of s = nat_of_digits (take 4 s)"

definition valid_date :: "string \<Rightarrow> bool" where
  "valid_date s =
     (canonical_date s \<and>
      (case datetime_new (year_of s) (nat_of_digits (take 2 (drop 5 s))) (nat_of_digits (drop 8 s)) of
         Inr dt \<Rightarrow> True
       | Inl e \<Rightarrow> False))"

section \<open>Properties\<close>

subsection \<open>Column normaliser\<close>

text \<open>
  Claim C8, as stated: for every header that is not in the synonym table, the normaliser
  returns the header unchanged. The header \<^verbatim>\<open>Foo\<close> is not in the table and comes back as
  \<^verbatim>\<open>foo\<close>, so the claim does not hold as stated.
\<close>

theorem standardize_unknown_not_unchanged:
  "map_of mapping ''Foo'' = None \<and> standardize_col_name ''Foo'' \<noteq> ''Foo''"
  by (simp add: standardize_col_name_def strip_def lower_def lower_char_def isupper_def
      isspace_def mapping_def)

text \<open>
  Claim C8, amended: for every header whose trimmed, lower-cased form is not in the synonym
  table, the normaliser returns that trimmed, lower-cased form; so a header that is already
  trimmed and in lower case is returned unchanged.
\<close>

theorem standardize_unknown:
  "map_of mapping (lower (strip col)) = None \<Longrightarrow>
     standardize_col_name col = lower (strip col) \<and>
     (lower (strip col) = col \<longrightarrow> standardize_col_name col = col)"
  by (auto simp: standardize_col_name_def)

theorem standardize_unknown_witness:
  "map_of mapping (lower (strip '' Foo '')) = None \<and> standardize_col_name '' Foo '' = ''foo'' \<and>
   map_of mapping (lower (strip ''foo'')) = None \<and> lower (strip ''foo'') = ''foo'' \<and>
   standardize_col_name ''foo'' = ''foo''"
proof -
  have a: "map_of mapping (lower (strip '' Foo '')) = None"
    and a': "lower (strip '' Foo '') = ''foo''"
    by (simp_all add: strip_def lower_def lower_char_def isupper_def isspace_def mapping_def)
  have b: "map_of mapping (lower (strip ''foo'')) = None"
    and b': "lower (strip ''foo'') = ''foo''"
    by (simp_all add: strip_def lower_def lower_char_def isupper_def isspace_def mapping_def)
  from standardize_unknown [OF a] standardize_unknown [OF b] a a' b b' show ?thesis by simp
qed

subsection \<open>The field parsers return\<close>

lemma datetime_new_cases:
  "datetime_new y m d = Inl ValueError \<or> (\<exists>dt. datetime_new y m d = Inr dt)"
  by (simp add: datetime_new_def)

lemma strptime_cases: "strptime v fmt = Inl ValueError \<or> (\<exists>dt. strptime v fmt = Inr dt)"
  using datetime_new_cases by (auto simp: strptime_def split: option.splits prod.splits)

lemma try_formats_returns: "\<exists>r. try_formats v fmts = Inr r"
proof (induction fmts)
  case Nil
  show ?case by simp
next
  case (Cons fmt fmts)
  from strptime_cases [of v fmt] Cons show ?case by auto
qed

lemma fromisoformat_cases:
  "fromisoformat isoparse s = Inl ValueError \<or> (\<exists>dt. fromisoformat isoparse s = Inr dt)"
  using datetime_new_cases by (auto simp: fromisoformat_def split: option.splits prod.splits)

lemma parse_date_returns: "\<exists>r. parse_date isoparse v = Inr r"
proof -
  obtain r where r: "try_formats (strip v) [FMT_YMD, FMT_DMY, FMT_MDY] = Inr r"
    using try_formats_returns by blast
  show ?thesis
    using r fromisoformat_cases [of isoparse "remove_char (CHR ''Z'') (strip v)"]
    by (cases r) (auto simp: parse_date_def Let_def)
qed

lemma float_of_str_cases: "float_of_str s = Inl ValueError \<or> (\<exists>x. float_of_str s = Inr x)"
  by (auto simp: float_of_str_def Let_def split: option.splits prod.splits)

lemma parse_amount_returns: "\<exists>r. parse_amount v = Inr r"
  using float_of_str_cases [of "remove_char (CHR '','') (remove_char (CHR ''$'') (strip v))"]
  by (auto simp: parse_amount_def Let_def)

text \<open>
  Claim C3: the date parser and the amount parser are total and deterministic. For every
  text, and whatever \<^verbatim>\<open>fromisoformat\<close> accepts, each parser returns a value or
  \<open>None\<close> and raises nothing: every \<^verbatim>\<open>ValueError\<close> of \<^verbatim>\<open>strptime\<close>, of the
  \<^verbatim>\<open>datetime\<close> constructor, of \<^verbatim>\<open>fromisoformat\<close> and of \<^verbatim>\<open>float\<close> is caught, and these
  calls raise nothing else. The parsers are functions of their argument, so the same text
  gives the same result.
\<close>

theorem parsers_never_raise:
  "(\<exists>r. parse_date isoparse v = Inr r) \<and> (\<exists>r. parse_amount v = Inr r)"
  using parse_date_returns parse_amount_returns by blast

subsection \<open>Rounding to binary64\<close>

text \<open>
  \<open>ilog2\<close> is the exponent of the leading bit, so \<open>to_double\<close> rounds to 53 significant
  bits; the lemma \<open>to_double_eval\<close> computes it from a given exponent.
\<close>

lemma pow2_powi: "pow2 k = 2 powi k"
  by (simp add: pow2_def power_int_def power_one_over inverse_eq_divide)

lemma pow2_pos: "0 < pow2 k"
  by (simp add: pow2_def)

lemma pow2_strict_mono: "a < b \<Longrightarrow> pow2 a < pow2 b"
  by (simp add: pow2_powi power_int_strict_increasing)

lemma pow2_mono: "a \<le> b \<Longrightarrow> pow2 a \<le> pow2 b"
  using pow2_strict_mono [of a b] by (cases "a = b") (auto simp: less_imp_le)

lemma pow2_add: "pow2 (a + b) = pow2 a * pow2 b"
  by (simp add: pow2_powi power_int_add)

lemma pow2_nat: "0 \<le> k \<Longrightarrow> pow2 k = 2 ^ nat k"
  by (simp add: pow2_def)

lemma ilog2_bounds:
  assumes "0 < q"
  shows "pow2 (ilog2 q) \<le> q \<and> q < pow2 (ilog2 q + 1)"
proof -
  obtain n d where nd: "quotient_of q = (n, d)" by force
  then have q: "q = of_int n / of_int d" by (rule quotient_of_div)
  have d: "0 < d" using quotient_of_denom_pos [OF nd] .
  have n: "0 < n" using assms q d by (simp add: zero_less_divide_iff)
  define bn where "bn = bitlen n"
  define bd where "bd = bitlen d"
  have bn1: "1 \<le> bn" and bd1: "1 \<le> bd"
    using n d bitlen_eq_zero_iff [of n] bitlen_eq_zero_iff [of d] bitlen_nonneg [of n] bitlen_nonneg [of d]
    by (auto simp: bn_def bd_def)
  from bitlen_bounds [OF n] have "(2::int) ^ nat (bn - 1) \<le> n" "n < 2 ^ nat bn"
    by (auto simp: bn_def)
  then have "(of_int ((2::int) ^ nat (bn - 1)) :: rat) \<le> of_int n" "(of_int n :: rat) < of_int (2 ^ nat bn)"
    by (simp_all only: of_int_le_iff of_int_less_iff)
  then have n1: "pow2 (bn - 1) \<le> of_int n" and n2: "of_int n < pow2 bn"
    using bn1 by (simp_all add: pow2_nat)
  from bitlen_bounds [OF d] have "(2::int) ^ nat (bd - 1) \<le> d" "d < 2 ^ nat bd"
    by (auto simp: bd_def)
  then have "(of_int ((2::int) ^ nat (bd - 1)) :: rat) \<le> of_int d" "(of_int d :: rat) < of_int (2 ^ nat bd)"
    by (simp_all only: of_int_le_iff of_int_less_iff)
  then have d1: "pow2 (bd - 1) \<le> of_int d" and d2: "of_int d < pow2 bd"
    using bd1 by (simp_all add: pow2_nat)
  have dpos: "(0::rat) < of_int d" using d by simp
  define k where "k = bn - bd"
  have "pow2 (k - 1) * of_int d < pow2 (k - 1) * pow2 bd"
    using d2 pow2_pos [of "k - 1"] by simp
  also have "\<dots> = pow2 (bn - 1)" by (simp add: k_def pow2_add [symmetric])
  also have "\<dots> \<le> of_int n" by (rule n1)
  finally have lo: "pow2 (k - 1) < q"
    using dpos by (simp add: q pos_less_divide_eq)
  have "of_int n < pow2 bn" by (rule n2)
  also have "\<dots> = pow2 (k + 1) * pow2 (bd - 1)" by (simp add: k_def pow2_add [symmetric])
  also have "\<dots> \<le> pow2 (k + 1) * of_int d"
    using d1 pow2_pos [of "k + 1"] by simp
  finally have hi: "q < pow2 (k + 1)"
    using dpos by (simp add: q pos_divide_less_eq)
  have "ilog2 q = (if pow2 k \<le> q then k else k - 1)"
    by (simp add: ilog2_def nd k_def bn_def bd_def Let_def)
  with lo hi show ?thesis by (auto simp: less_imp_le)
qed

lemma ilog2_unique:
  assumes "pow2 k \<le> q" "q < pow2 (k + 1)"
  shows "ilog2 q = k"
proof -
  have q: "0 < q" using assms(1) pow2_pos [of k] by simp
  note b = ilog2_bounds [OF q]
  show ?thesis
  proof (rule ccontr)
    assume "ilog2 q \<noteq> k"
    then consider "ilog2 q + 1 \<le> k" | "k + 1 \<le> ilog2 q" by linarith
    then show False
    proof cases
      case 1
      then have "pow2 (ilog2 q + 1) \<le> pow2 k" by (rule pow2_mono)
      with b assms show False by simp
    next
      case 2
      then have "pow2 (k + 1) \<le> pow2 (ilog2 q)" by (rule pow2_mono)
      with b assms show False by simp
    qed
  qed
qed

lemma to_double_pos:
  assumes "pow2 k \<le> q" "q < pow2 (k + 1)"
  shows "to_double q =
           (let e = max (k - 52) (- 1074);
                r = of_int (round_half_even (q / pow2 e)) * pow2 e
            in if pow2 1024 \<le> r then PInf else Fin r)"
proof -
  have q: "0 < q" using assms(1) pow2_pos [of k] by simp
  then show ?thesis
    by (simp add: to_double_def ilog2_unique [OF assms] Let_def)
qed

lemma round_half_even_near:
  assumes "\<bar>q - of_int f\<bar> < 1 / 2"
  shows "round_half_even q = f"
proof (cases "of_int f \<le> q")
  case True
  with assms have "\<lfloor>q\<rfloor> = f" by (intro floor_unique) auto
  with assms True show ?thesis by (simp add: round_half_even_def)
next
  case False
  with assms have "\<lfloor>q\<rfloor> = f - 1" by (intro floor_unique) auto
  with assms False show ?thesis by (simp add: round_half_even_def)
qed

lemma to_double_eval:
  assumes "pow2 k \<le> q" "q < pow2 (k + 1)" "e = max (k - 52) (- 1074)"
    and "\<bar>q / pow2 e - of_int m\<bar> < 1 / 2" "of_int m * pow2 e < pow2 1024"
  shows "to_double q = Fin (of_int m * pow2 e)"
  using assms(3-5) by (simp add: to_double_pos [OF assms(1,2)] round_half_even_near Let_def)

lemma to_double_5: "to_double 5 = Fin 5"
  by (subst to_double_eval [where k = 2 and e = "-50" and m = "5 * 2 ^ 50"])
    (simp_all add: pow2_def)

lemma to_double_123: "to_double 123 = Fin 123"
  by (subst to_double_eval [where k = 6 and e = "-46" and m = "123 * 2 ^ 46"])
    (simp_all add: pow2_def)

lemma to_double_1234_5: "to_double (2469 / 2) = Fin (2469 / 2)"
  by (subst to_double_eval [where k = 10 and e = "-42" and m = "2469 * 2 ^ 41"])
    (simp_all add: pow2_def)

lemma to_double_0_001: "to_double (1 / 1000) = Fin (1152921504606847 / 1152921504606846976)"
  by (subst to_double_eval [where k = "-10" and e = "-62" and m = 4611686018427388])
    (simp_all add: pow2_def)

subsection \<open>Trimming\<close>

lemma strip_gen_decomp:
  "\<exists>a b. s = a @ rev (dropWhile P (rev (dropWhile P s))) @ b \<and> list_all P a \<and> list_all P b"
proof -
  let ?r = "rev (dropWhile P s)"
  have 1: "s = takeWhile P s @ dropWhile P s" by simp
  have "?r = takeWhile P ?r @ dropWhile P ?r" by simp
  then have "rev ?r = rev (dropWhile P ?r) @ rev (takeWhile P ?r)"
    by (metis rev_append)
  then have 2: "dropWhile P s = rev (dropWhile P ?r) @ rev (takeWhile P ?r)" by simp
  have 3: "list_all P (takeWhile P s)" "list_all P (rev (takeWhile P ?r))"
    by (auto simp: list_all_iff dest: set_takeWhileD)
  from 1 2 have "s = takeWhile P s @ rev (dropWhile P ?r) @ rev (takeWhile P ?r)" by metis
  with 3 show ?thesis by blast
qed

lemma strip_gen_pad:
  assumes "list_all P a" "list_all P b"
  shows "rev (dropWhile P (rev (dropWhile P (a @ m @ b)))) = rev (dropWhile P (rev (dropWhile P m)))"
proof -
  from assms have a: "\<And>x. x \<in> set a \<Longrightarrow> P x" and b: "\<And>x. x \<in> set b \<Longrightarrow> P x"
    by (auto simp: list_all_iff)
  have 1: "dropWhile P (a @ m @ b) = dropWhile P (m @ b)"
    by (rule dropWhile_append2) (use a in auto)
  show ?thesis
  proof (cases "\<forall>x\<in>set m. P x")
    case True
    then have e1: "dropWhile P (a @ m @ b) = []" and e2: "dropWhile P m = []"
      using a b by auto
    show ?thesis by (simp only: e1 e2)
  next
    case False
    then obtain x where "x \<in> set m" "\<not> P x" by blast
    then have "dropWhile P (m @ b) = dropWhile P m @ b"
      by (rule dropWhile_append1)
    with 1 have e3: "rev (dropWhile P (a @ m @ b)) = rev b @ rev (dropWhile P m)"
      by (simp only: rev_append)
    have e4: "dropWhile P (rev b @ rev (dropWhile P m)) = dropWhile P (rev (dropWhile P m))"
      by (rule dropWhile_append2) (use b in auto)
    show ?thesis by (simp only: e3 e4)
  qed
qed

lemma float_space_not_money: "float_space c \<Longrightarrow> c \<noteq> CHR ''$'' \<and> c \<noteq> CHR '',''"
  by (auto simp: float_space_def)

lemma strip_money_spaces: "list_all float_space a \<Longrightarrow> remove_char (CHR '','') (remove_char (CHR ''$'') a) = a"
  by (induction a) (auto simp: remove_char_def dest: float_space_not_money)

lemma float_strip_money:
  "float_strip (remove_char (CHR '','') (remove_char (CHR ''$'') (float_strip s)))
   = float_strip (remove_char (CHR '','') (remove_char (CHR ''$'') s))"
proof -
  obtain a b where s: "s = a @ float_strip s @ b" and a: "list_all float_space a" and b: "list_all float_space b"
    using strip_gen_decomp [of s float_space] unfolding float_strip_def by blast
  let ?D = "\<lambda>s. remove_char (CHR '','') (remove_char (CHR ''$'') s)"
  have "?D s = ?D (a @ float_strip s @ b)" using s by simp
  also have "\<dots> = ?D a @ ?D (float_strip s) @ ?D b" by (simp add: remove_char_def)
  also have "\<dots> = a @ ?D (float_strip s) @ b" using a b by (simp add: strip_money_spaces)
  finally have "float_strip (?D s) = float_strip (a @ ?D (float_strip s) @ b)" by simp
  also have "\<dots> = float_strip (?D (float_strip s))"
    unfolding float_strip_def using strip_gen_pad [OF a b] by simp
  finally show ?thesis by simp
qed

lemma float_of_str_strip: "float_strip a = float_strip b \<Longrightarrow> float_of_str a = float_of_str b"
  by (simp add: float_of_str_def)

lemma float_of_str_Nil: "float_of_str [] = Inl ValueError"
  by (simp add: float_of_str_def float_strip_def)

lemma parse_amount_alt:
  "parse_amount value =
     (case float_of_str (remove_char (CHR '','') (remove_char (CHR ''$'') (strip value))) of
        Inl ValueError \<Rightarrow> Inr None
      | Inl e \<Rightarrow> Inl e
      | Inr amt \<Rightarrow> if le_zero amt then Inr None else Inr (Some (round2 amt)))"
  by (simp add: parse_amount_def Let_def float_of_str_Nil)

subsection \<open>Amount parser\<close>

lemma isspace_float_space: "\<not> separator c \<Longrightarrow> isspace c = float_space c"
  by (auto simp: isspace_def float_space_def separator_def Let_def)

lemma strip_float_strip:
  assumes "list_all (\<lambda>c. \<not> separator c) s"
  shows "strip s = float_strip s"
proof -
  have 1: "dropWhile isspace s = dropWhile float_space s"
    using assms by (intro dropWhile_cong) (auto simp: list_all_iff isspace_float_space)
  have "\<forall>c \<in> set (rev (dropWhile float_space s)). \<not> separator c"
    using assms by (auto simp: list_all_iff dest: set_dropWhileD)
  then have 2: "dropWhile isspace (rev (dropWhile float_space s)) = dropWhile float_space (rev (dropWhile float_space s))"
    by (intro dropWhile_cong) (auto simp: isspace_float_space)
  show ?thesis unfolding strip_def float_strip_def using 1 2 by simp
qed

lemmas float_eval = float_of_str_def float_strip_def float_space_def remove_char_def split_sign_def
  lower_def lower_char_def isupper_def parse_decimal_def isdigit_def nat_of_digits_def digit_val_def
  decimal_value_def pow10_def Let_def

lemmas strip_eval = strip_def isspace_def

lemma parse_amount_money: "parse_amount ''$1,234.5'' = Inr (Some (Fin (2469 / 2)))"
  by (simp add: parse_amount_def strip_eval float_eval to_double_1234_5 round_half_even_def)

lemma round_half_even_nonneg: "0 \<le> q \<Longrightarrow> 0 \<le> round_half_even q"
  by (auto simp: round_half_even_def Let_def) 

lemma to_double_nonpos:
  assumes "q \<le> 0"
  shows "le_zero (to_double q)"
proof (cases "q = 0")
  case True
  then show ?thesis by (simp add: to_double_def)
next
  case False
  with assms have q: "q < 0" by simp
  define e where "e = max (ilog2 \<bar>q\<bar> - 52) (- 1074)"
  have "0 \<le> \<bar>q\<bar> / pow2 e" using pow2_pos [of e] by simp
  then have "0 \<le> round_half_even (\<bar>q\<bar> / pow2 e)" by (rule round_half_even_nonneg)
  then have "(0::rat) \<le> of_int (round_half_even (\<bar>q\<bar> / pow2 e)) * pow2 e"
    using pow2_pos [of e] by (simp add: less_imp_le)
  then show ?thesis
    using q unfolding to_double_def Let_def e_def [symmetric] by simp
qed

lemma parse_amount_minus_5: "parse_amount ''-5'' = Inr None"
  by (simp add: parse_amount_def strip_eval float_eval to_double_nonpos)

lemma to_double_neg: "to_double (- q) = (case to_double q of Fin r \<Rightarrow> Fin (- r) | PInf \<Rightarrow> NInf | NInf \<Rightarrow> PInf | NaN \<Rightarrow> NaN)"
  by (cases "q = 0"; cases "q < 0") (auto simp: to_double_def Let_def)

lemma to_double_minus_5: "to_double (- 5) = Fin (- 5)"
  by (simp add: to_double_neg to_double_5)

lemma to_double_0: "to_double 0 = Fin 0"
  by (simp add: to_double_def)

lemma parse_amount_0: "parse_amount ''0'' = Inr None"
  by (simp add: parse_amount_def strip_eval float_eval to_double_0)

lemma round2_0_001: "round2 (Fin (1152921504606847 / 1152921504606846976)) = Fin 0"
proof -
  have "round_half_even (1152921504606847 / 1152921504606846976 * 100) = 0"
    by (rule round_half_even_near) simp
  then show ?thesis by (simp add: to_double_0)
qed

lemma parse_amount_0_001: "parse_amount ''0.001'' = Inr (Some (Fin 0))"
proof -
  have "parse_amount ''0.001'' = Inr (Some (round2 (Fin (1152921504606847 / 1152921504606846976))))"
    by (simp add: parse_amount_def strip_eval float_eval to_double_0_001 del: round2.simps)
  then show ?thesis by (simp only: round2_0_001)
qed

lemma parse_amount_nan: "parse_amount ''nan'' = Inr (Some NaN)"
  by (simp add: parse_amount_def strip_eval float_eval)

lemma parse_amount_1_2_3: "parse_amount ''1,2$3'' = Inr (Some (Fin 123))"
  by (simp add: parse_amount_def strip_eval float_eval to_double_123 round_half_even_def)

lemma format_1234_5: "format_2f (Fin (2469 / 2)) = ''1234.50''"
  by (simp add: round_half_even_def digits.simps digit_char_def zfill_def)

lemma format_123: "format_2f (Fin 123) = ''123.00''"
  by (simp add: round_half_even_def digits.simps digit_char_def zfill_def)

lemma parse_amount_sep_5: "parse_amount [CHR ''$'', CHR 0x1C, CHR ''5''] = Inr None"
  by (simp add: parse_amount_def strip_eval float_eval)

lemma parse_amount_sep_5': "parse_amount [CHR 0x1C, CHR ''5''] = Inr (Some (Fin 5))"
  by (simp add: parse_amount_def strip_eval float_eval to_double_5 round_half_even_def)

lemma round_half_even_dist: "\<bar>of_int (round_half_even x) - x\<bar> \<le> 1 / 2"
proof -
  have "of_int \<lfloor>x\<rfloor> \<le> x" "x < of_int \<lfloor>x\<rfloor> + 1"
    by linarith+
  then show ?thesis
    unfolding round_half_even_def Let_def by (auto simp: abs_le_iff)
qed

lemma round2_nearest:
  "\<exists>k. round2 (Fin q) = to_double (of_int k / 100) \<and> \<bar>of_int k - 100 * q\<bar> \<le> 1 / 2"
  using round_half_even_dist [of "q * 100"]
  by (intro exI [of _ "round_half_even (q * 100)"]) (simp add: mult.commute)

lemma gt_zero_not_le_zero: "gt_zero x \<Longrightarrow> \<not> le_zero x"
  by (cases x) auto

text \<open>
  The cases of the amount parser, with \<open>v\<close> the text after trimming and deleting \<^verbatim>\<open>$\<close>
  and \<^verbatim>\<open>,\<close>: when \<open>v\<close> is empty or \<^verbatim>\<open>float\<close> rejects it, or its value is at most 0,
  there is no value; when its value \<open>x\<close> is strictly positive, the result is \<open>x\<close> rounded to
  two decimal places, the binary64 value of \<open>k / 100\<close> for an integer \<open>k\<close> nearest to
  \<open>100 x\<close>. \<^verbatim>\<open>$1,234.5\<close> gives 1234.5, printed as \<^verbatim>\<open>1234.50\<close>; \<^verbatim>\<open>-5\<close> and \<^verbatim>\<open>0\<close>
  give no value.
\<close>

lemma parse_amount_cases:
  "(remove_char (CHR '','') (remove_char (CHR ''$'') (strip value)) = [] \<or>
    float_of_str (remove_char (CHR '','') (remove_char (CHR ''$'') (strip value))) = Inl ValueError
      \<longrightarrow> parse_amount value = Inr None) \<and>
   (\<forall>x. float_of_str (remove_char (CHR '','') (remove_char (CHR ''$'') (strip value))) = Inr x \<and> le_zero x
      \<longrightarrow> parse_amount value = Inr None) \<and>
   (\<forall>x. float_of_str (remove_char (CHR '','') (remove_char (CHR ''$'') (strip value))) = Inr x \<and> gt_zero x
      \<longrightarrow> parse_amount value = Inr (Some (round2 x))) \<and>
   (\<forall>q. \<exists>k. round2 (Fin q) = to_double (of_int k / 100) \<and> \<bar>of_int k - 100 * q\<bar> \<le> 1 / 2) \<and>
   parse_amount ''$1,234.5'' = Inr (Some (Fin (2469 / 2))) \<and>
   format_2f (Fin (2469 / 2)) = ''1234.50'' \<and>
   parse_amount ''-5'' = Inr None \<and> parse_amount ''0'' = Inr None"
proof (intro conjI)
  show "remove_char (CHR '','') (remove_char (CHR ''$'') (strip value)) = [] \<or>
    float_of_str (remove_char (CHR '','') (remove_char (CHR ''$'') (strip value))) = Inl ValueError
      \<longrightarrow> parse_amount value = Inr None"
    by (auto simp: parse_amount_alt float_of_str_Nil)
  show "\<forall>x. float_of_str (remove_char (CHR '','') (remove_char (CHR ''$'') (strip value))) = Inr x \<and> le_zero x
      \<longrightarrow> parse_amount value = Inr None"
    by (simp add: parse_amount_alt)
  show "\<forall>x. float_of_str (remove_char (CHR '','') (remove_char (CHR ''$'') (strip value))) = Inr x \<and> gt_zero x
      \<longrightarrow> parse_amount value = Inr (Some (round2 x))"
    by (auto simp: parse_amount_alt gt_zero_not_le_zero)
  show "\<forall>q. \<exists>k. round2 (Fin q) = to_double (of_int k / 100) \<and> \<bar>of_int k - 100 * q\<bar> \<le> 1 / 2"
    using round2_nearest by blast
qed (rule parse_amount_money format_1234_5 parse_amount_minus_5 parse_amount_0)+

text \<open>
  Claim C4: for every text, the amount parser returns no value when the text is empty, not
  numeric or a number at most 0, and the number rounded to two decimal places when it is
  strictly positive. The cases above do not cover every text: \<^verbatim>\<open>float\<close> accepts
  \<^verbatim>\<open>nan\<close>, the guard \<^verbatim>\<open>amt <= 0\<close> is false for NaN, and the parser returns NaN, which
  is a value and is not a strictly positive number. The guard that is to keep everything
  but positive amounts out misses this case, as it misses the amounts that round to 0
  (claim C2).
\<close>

theorem parse_amount_keeps_nan:
  "parse_amount ''nan'' = Inr (Some NaN) \<and> \<not> gt_zero NaN \<and> \<not> le_zero NaN \<and>
   float_of_str ''nan'' = Inr NaN \<and> round2 NaN = NaN"
  by (simp add: parse_amount_def strip_eval float_eval)

text \<open>
  Claim C10, as stated: for every text, the amount parsed is the amount parsed from the
  text with all \<^verbatim>\<open>$\<close> and \<^verbatim>\<open>,\<close> deleted. The parser trims before it deletes, and
  \<^verbatim>\<open>float\<close> does not take the separator U+001C for a blank as \<^verbatim>\<open>str.strip\<close> does: the
  text \<^verbatim>\<open>$\<close>, U+001C, \<^verbatim>\<open>5\<close> has no value, and without the \<^verbatim>\<open>$\<close> its value is 5.
\<close>

theorem parse_amount_money_marks_counterexample:
  "parse_amount [CHR ''$'', CHR 0x1C, CHR ''5''] \<noteq>
   parse_amount (remove_char (CHR '','') (remove_char (CHR ''$'') [CHR ''$'', CHR 0x1C, CHR ''5'']))"
  by (simp add: parse_amount_sep_5 parse_amount_sep_5' remove_char_def)

lemma parse_amount_remove_marks:
  assumes "list_all (\<lambda>c. \<not> separator c) s"
  shows "parse_amount s = parse_amount (remove_char (CHR '','') (remove_char (CHR ''$'') s))"
proof -
  let ?D = "\<lambda>s. remove_char (CHR '','') (remove_char (CHR ''$'') s)"
  have s': "list_all (\<lambda>c. \<not> separator c) (?D s)"
    using assms by (auto simp: list_all_iff remove_char_def)
  have DD: "?D (?D s) = ?D s"
    by (simp add: remove_char_def) (rule filter_cong, auto)
  have "float_strip (?D (strip s)) = float_strip (?D s)"
    using strip_float_strip [OF assms] float_strip_money by simp
  moreover have "float_strip (?D (strip (?D s))) = float_strip (?D s)"
    using strip_float_strip [OF s'] float_strip_money [of "?D s"] DD by simp
  ultimately have "float_of_str (?D (strip s)) = float_of_str (?D (strip (?D s)))"
    by (intro float_of_str_strip) simp
  then show ?thesis by (simp add: parse_amount_alt)
qed

text \<open>
  Claim C10, amended: for every text without the separators U+001C .. U+001F, the amount
  parsed is the amount parsed from the text with all \<^verbatim>\<open>$\<close> and \<^verbatim>\<open>,\<close> deleted,
  wherever they stand; \<^verbatim>\<open>1,2$3\<close> gives 123, printed as \<^verbatim>\<open>123.00\<close>.
\<close>

theorem parse_amount_ignores_money_marks:
  "(list_all (\<lambda>c. \<not> separator c) s \<longrightarrow>
      parse_amount s = parse_amount (remove_char (CHR '','') (remove_char (CHR ''$'') s))) \<and>
   parse_amount ''1,2$3'' = Inr (Some (Fin 123)) \<and> format_2f (Fin 123) = ''123.00''"
  using parse_amount_remove_marks parse_amount_1_2_3 format_123 by blast

theorem parse_amount_ignores_money_marks_witness:
  "list_all (\<lambda>c. \<not> separator c) ''$ 1,5 '' \<and>
   parse_amount ''$ 1,5 '' = parse_amount '' 15 '' \<and>
   parse_amount ''1,2$3'' = Inr (Some (Fin 123))"
proof -
  have a: "list_all (\<lambda>c. \<not> separator c) ''$ 1,5 ''"
    by (simp add: separator_def)
  have b: "remove_char (CHR '','') (remove_char (CHR ''$'') ''$ 1,5 '') = '' 15 ''"
    by (simp add: remove_char_def)
  from parse_amount_ignores_money_marks [of "''$ 1,5 ''"] a b show ?thesis by simp
qed

subsection \<open>Printing and reading decimal digits\<close>

lemma digit_char_cases:
  assumes "(k::nat) < 10"
  obtains "k = 0" | "k = 1" | "k = 2" | "k = 3" | "k = 4" | "k = 5" | "k = 6" | "k = 7" | "k = 8" | "k = 9"
proof -
  from assms
  have "k = 0 \<or> k = 1 \<or> k = 2 \<or> k = 3 \<or> k = 4 \<or> k = 5 \<or> k = 6 \<or> k = 7 \<or> k = 8 \<or> k = 9"
    by arith
  then show thesis using that by blast
qed

lemma of_char_digit_char: "k < 10 \<Longrightarrow> of_char (digit_char k) = (48 + k :: nat)"
  by (erule digit_char_cases) (simp_all add: digit_char_def)

lemma digit_val_digit_char: "k < 10 \<Longrightarrow> digit_val (digit_char k) = k"
  by (simp add: digit_val_def of_char_digit_char)

lemma isdigit_digit_char: "isdigit (digit_char k)"
proof -
  have "k mod 10 < 10" by simp
  then have "of_char (digit_char (k mod 10)) = (48 + k mod 10 :: nat)" by (rule of_char_digit_char)
  moreover have "digit_char (k mod 10) = digit_char k" by (simp add: digit_char_def)
  ultimately show ?thesis by (simp add: isdigit_def)
qed

lemma digit_char_eq_iff: "k < 10 \<Longrightarrow> digit_char k = c \<longleftrightarrow> (48 + k :: nat) = of_char c"
  using of_char_digit_char [of k] by (metis of_char_eq_iff)

lemma digits_all: "list_all isdigit (digits n)"
  by (induction n rule: digits.induct) (subst digits.simps, simp add: isdigit_digit_char)

lemma digits_length: "n < 10 ^ k \<Longrightarrow> 0 < k \<Longrightarrow> length (digits n) \<le> k"
proof (induction n arbitrary: k rule: digits.induct)
  case (1 n)
  show ?case
  proof (cases "n < 10")
    case True
    then show ?thesis using 1(3) by (subst digits.simps) simp
  next
    case False
    then obtain j where k: "k = Suc j" and j: "0 < j"
      using 1(2,3) by (cases k; cases "k - 1") auto
    have "n div 10 < 10 ^ j" using 1(2) k by (simp add: less_mult_imp_div_less mult.commute)
    from 1(1) [OF False this j] show ?thesis using False k by (subst digits.simps) simp
  qed
qed

lemma nat_of_digits_snoc: "nat_of_digits (s @ [c]) = 10 * nat_of_digits s + digit_val c"
  by (simp add: nat_of_digits_def)

lemma nat_of_digits_digits: "nat_of_digits (digits n) = n"
proof (induction n rule: digits.induct)
  case (1 n)
  show ?case
  proof (cases "n < 10")
    case True
    then show ?thesis by (subst digits.simps) (simp add: nat_of_digits_def digit_val_digit_char)
  next
    case False
    with 1 show ?thesis
      by (subst digits.simps) (simp add: nat_of_digits_snoc digit_val_digit_char)
  qed
qed

lemma nat_of_digits_zeros: "nat_of_digits (replicate k (CHR ''0'') @ s) = nat_of_digits s"
proof -
  have "foldl (\<lambda>n c. 10 * n + digit_val c) 0 (replicate k (CHR ''0'')) = 0"
    by (induction k) (simp_all add: digit_val_def)
  then show ?thesis by (simp add: nat_of_digits_def)
qed

lemma nat_of_digits_zfill: "nat_of_digits (zfill w (digits n)) = n"
  by (simp add: zfill_def nat_of_digits_zeros nat_of_digits_digits)

lemma zfill_length: "length s \<le> w \<Longrightarrow> length (zfill w s) = w"
  by (simp add: zfill_def)

lemma zfill_all: "list_all isdigit s \<Longrightarrow> list_all isdigit (zfill w s)"
  by (auto simp: zfill_def list_all_iff isdigit_def)

lemma zfill2_digits: "n < 100 \<Longrightarrow> zfill 2 (digits n) = [digit_char (n div 10), digit_char (n mod 10)]"
  by (subst digits.simps, subst digits.simps) (auto simp: zfill_def digit_char_def)

subsection \<open>Date parser\<close>

lemma match_alt_Cons:
  "match_alt (k # ks) s =
     (case s of [] \<Rightarrow> None
      | c # cs \<Rightarrow> if cc_match k c
                  then (case match_alt ks cs of None \<Rightarrow> None | Some (m, r) \<Rightarrow> Some (c # m, r))
                  else None)"
  by (cases s) simp_all

lemma re_match_year:
  assumes "isdigit a" "isdigit b" "isdigit c" "isdigit e"
  shows "re_match (Dir_Y # Chr x # fs) (a # b # c # e # x # s) =
           map_option (\<lambda>(g, rest). ((Dir_Y, [a, b, c, e]) # (Chr x, [x]) # g, rest)) (re_match fs s)"
  using assms by (simp split: option.splits)

lemma month_cases:
  assumes "1 \<le> (m::nat)" "m \<le> 12"
  obtains "m = 1" | "m = 2" | "m = 3" | "m = 4" | "m = 5" | "m = 6" | "m = 7" | "m = 8" | "m = 9"
    | "m = 10" | "m = 11" | "m = 12"
proof -
  from assms
  have "m = 1 \<or> m = 2 \<or> m = 3 \<or> m = 4 \<or> m = 5 \<or> m = 6 \<or> m = 7 \<or> m = 8 \<or> m = 9 \<or> m = 10 \<or> m = 11 \<or> m = 12"
    by arith
  then show thesis using that by blast
qed

lemma re_match_month:
  assumes "1 \<le> m" "m \<le> 12" "x = CHR ''-'' \<or> x = CHR ''/''"
  shows "re_match (Dir_m # Chr x # fs) (digit_char (m div 10) # digit_char (m mod 10) # x # s) =
           map_option (\<lambda>(g, rest). ((Dir_m, [digit_char (m div 10), digit_char (m mod 10)]) # (Chr x, [x]) # g, rest))
             (re_match fs s)"
  using assms(1,2)
  by (rule month_cases) (use assms(3) in \<open>auto simp: digit_char_def split: option.splits\<close>)

lemma re_match_day_last:
  assumes "1 \<le> d" "d \<le> 31"
  shows "re_match [Dir_d] (digit_char (d div 10) # digit_char (d mod 10) # s) =
           Some ([(Dir_d, [digit_char (d div 10), digit_char (d mod 10)])], s)"
proof -
  define q where "q = d div 10"
  define r where "r = d mod 10"
  have r: "r < 10" by (simp add: r_def)
  have q: "q = 0 \<or> q = 1 \<or> q = 2 \<or> q = 3" using assms by (auto simp: q_def)
  have q0: "q = 0 \<Longrightarrow> 1 \<le> r" using assms unfolding q_def r_def by arith
  have q3: "q = 3 \<Longrightarrow> r \<le> 1" using assms unfolding q_def r_def by arith
  have "re_match [Dir_d] (digit_char q # digit_char r # s) = Some ([(Dir_d, [digit_char q, digit_char r])], s)"
    using q
  proof (elim disjE)
    assume "q = 0"
    with q0 r show ?thesis
      by (simp add: isdigit_digit_char of_char_digit_char digit_char_eq_iff)
  next
    assume "q = 1"
    with r show ?thesis
      by (simp add: isdigit_digit_char of_char_digit_char digit_char_eq_iff)
  next
    assume "q = 2"
    with r show ?thesis
      by (simp add: isdigit_digit_char of_char_digit_char digit_char_eq_iff)
  next
    assume "q = 3"
    with q3 r show ?thesis
      by (simp add: isdigit_digit_char of_char_digit_char digit_char_eq_iff)
  qed
  then show ?thesis by (simp only: q_def r_def)
qed

lemma digits_nonempty: "digits n \<noteq> []"
  by (subst digits.simps) simp

lemma digits_1000: "1000 \<le> y \<Longrightarrow> 4 \<le> length (digits y)"
proof -
  assume y: "1000 \<le> y"
  then have a: "\<not> y < 10" and b: "\<not> y div 10 < 10" and c: "\<not> y div 10 div 10 < 10" by auto
  have "digits y = digits (y div 10 div 10 div 10) @
      [digit_char (y div 10 div 10 mod 10), digit_char (y div 10 mod 10), digit_char (y mod 10)]"
    using a b c by (subst digits.simps, subst digits.simps, subst digits.simps) simp
  moreover have "1 \<le> length (digits (y div 10 div 10 div 10))"
    using digits_nonempty [of "y div 10 div 10 div 10"] by (cases "digits (y div 10 div 10 div 10)") auto
  ultimately show ?thesis by simp
qed

lemma strftime_shape:
  assumes "datetime_new y m d = Inr dt" "1000 \<le> y"
  shows "\<exists>a b c e. isdigit a \<and> isdigit b \<and> isdigit c \<and> isdigit e \<and> zfill 4 (digits y) = [a, b, c, e] \<and>
           strftime dt = [a, b, c, e] @ CHR ''-'' # digit_char (m div 10) # digit_char (m mod 10) #
                          CHR ''-'' # [digit_char (d div 10), digit_char (d mod 10)]"
proof -
  from assms(1) have dt: "dt = \<lparr>year = y, month = m, day = d\<rparr>"
    and y: "y \<le> 9999" and m: "m \<le> 12" and d: "d \<le> 31"
    by (auto simp: datetime_new_def days_in_month_def split: if_splits)
  have "y < 10 ^ 4" using y by simp
  then have le: "length (digits y) \<le> 4" by (rule digits_length) simp
  then have len: "length (zfill 4 (digits y)) = 4" by (rule zfill_length)
  from le digits_1000 [OF assms(2)] have same: "zfill 4 (digits y) = digits y"
    by (simp add: zfill_def)
  have all: "list_all isdigit (zfill 4 (digits y))" by (intro zfill_all digits_all)
  from len obtain a b c e where abce: "zfill 4 (digits y) = [a, b, c, e]"
    by (auto simp: length_Suc_conv numeral_eq_Suc)
  with all have "isdigit a" "isdigit b" "isdigit c" "isdigit e" by simp_all
  moreover have "strftime dt = [a, b, c, e] @ CHR ''-'' # digit_char (m div 10) # digit_char (m mod 10) #
                          CHR ''-'' # [digit_char (d div 10), digit_char (d mod 10)]"
    using m d abce same by (simp add: strftime_def dt zfill2_digits)
  ultimately show ?thesis using abce by blast
qed

lemma strip_digits:
  assumes "list_all isdigit s"
  shows "strip s = s"
proof -
  have ns: "\<And>c. isdigit c \<Longrightarrow> \<not> isspace c"
    by (auto simp: isdigit_def isspace_def Let_def)
  have dw: "\<And>t. list_all isdigit t \<Longrightarrow> dropWhile isspace t = t"
    by (case_tac t) (auto simp: ns)
  have "list_all isdigit (rev s)" using assms by (simp add: list_all_iff)
  with dw [of s] dw [of "rev s"] assms show ?thesis by (simp add: strip_def)
qed

lemma py_int_two: "py_int [digit_char (n div 10), digit_char (n mod 10)] = n" if "n < 100"
proof -
  have "strip [digit_char (n div 10), digit_char (n mod 10)] = [digit_char (n div 10), digit_char (n mod 10)]"
    by (rule strip_digits) (simp add: isdigit_digit_char)
  then show ?thesis
    using that by (simp add: py_int_def nat_of_digits_def digit_val_digit_char)
qed

lemma strptime_strftime:
  assumes "datetime_new y m d = Inr dt" "1000 \<le> y"
  shows "strptime (strftime dt) FMT_YMD = Inr dt"
proof -
  from assms(1) have m: "1 \<le> m" "m \<le> 12" and d: "1 \<le> d" "d \<le> 31"
    by (auto simp: datetime_new_def days_in_month_def split: if_splits)
  from strftime_shape [OF assms] obtain a b c e where
    dig: "isdigit a" "isdigit b" "isdigit c" "isdigit e" and z: "zfill 4 (digits y) = [a, b, c, e]"
    and s: "strftime dt = [a, b, c, e] @ CHR ''-'' # digit_char (m div 10) # digit_char (m mod 10) #
                          CHR ''-'' # [digit_char (d div 10), digit_char (d mod 10)]"
    by blast
  have yv: "py_int [a, b, c, e] = y"
  proof -
    have "strip [a, b, c, e] = [a, b, c, e]" using dig by (intro strip_digits) simp
    then show ?thesis using nat_of_digits_zfill [of 4 y] z by (simp add: py_int_def)
  qed
  let ?mm = "[digit_char (m div 10), digit_char (m mod 10)]"
  let ?dd = "[digit_char (d div 10), digit_char (d mod 10)]"
  have 1: "re_match [Dir_d] ?dd = Some ([(Dir_d, ?dd)], [])"
    by (rule re_match_day_last [OF d])
  have 2: "re_match [Dir_m, Chr (CHR ''-''), Dir_d] (digit_char (m div 10) # digit_char (m mod 10) # CHR ''-'' # ?dd) =
             Some ([(Dir_m, ?mm), (Chr (CHR ''-''), ''-''), (Dir_d, ?dd)], [])"
    by (subst re_match_month [OF m]) (simp_all only: 1 option.map prod.case, simp)
  have 3: "re_match FMT_YMD (strftime dt) =
          Some ([(Dir_Y, [a, b, c, e]), (Chr (CHR ''-''), ''-''),
                 (Dir_m, ?mm), (Chr (CHR ''-''), ''-''), (Dir_d, ?dd)], [])"
    unfolding s FMT_YMD_def append_Cons append_Nil
    by (subst re_match_year [OF dig]) (simp only: 2 option.map prod.case)
  show ?thesis
    using m d yv assms(1) by (simp add: strptime_def 3 py_int_two)
qed

lemma re_match_year_shape:
  "re_match (Dir_Y # fs) v = Some r \<Longrightarrow>
     \<exists>a b c e s. v = a # b # c # e # s \<and> isdigit a \<and> isdigit b \<and> isdigit c \<and> isdigit e"
  by (auto simp: match_alt_Cons split: list.splits if_splits option.splits)

lemma re_match_day_shape:
  "re_match (Dir_d # Chr x # fs) v = Some r \<Longrightarrow>
     (\<exists>c s. v = c # x # s) \<or> (\<exists>c c' s. v = c # c' # x # s)"
  by (auto simp: match_alt_Cons split: list.splits if_splits option.splits)

lemma strptime_DMY_not_YMD:
  assumes "strptime v FMT_DMY = Inr dt"
  shows "strptime v FMT_YMD = Inl ValueError"
proof -
  from assms obtain r where "re_match FMT_DMY v = Some r"
    by (auto simp: strptime_def split: option.splits)
  then have shape: "(\<exists>c s. v = c # CHR ''/'' # s) \<or> (\<exists>c c' s. v = c # c' # CHR ''/'' # s)"
    unfolding FMT_DMY_def by (rule re_match_day_shape)
  have nd: "\<not> isdigit (CHR ''/'')" by (simp add: isdigit_def)
  have "re_match FMT_YMD v = None"
  proof (cases "re_match FMT_YMD v")
    case (Some r')
    then obtain a b c e s where "v = a # b # c # e # s" "isdigit b" "isdigit c"
      unfolding FMT_YMD_def by (blast dest: re_match_year_shape)
    with shape nd show ?thesis by auto
  qed simp
  then show ?thesis by (simp add: strptime_def)
qed

lemma strptime_Nil: "strptime [] FMT_YMD = Inl ValueError" "strptime [] FMT_DMY = Inl ValueError"
  "strptime [] FMT_MDY = Inl ValueError"
  by (simp_all add: strptime_def FMT_YMD_def FMT_DMY_def FMT_MDY_def)

lemma strftime_canonical:
  assumes "datetime_new y m d = Inr dt" "1000 \<le> y"
  shows "canonical_date (strftime dt)"
proof -
  from strftime_shape [OF assms] obtain a b c e where
    "isdigit a" "isdigit b" "isdigit c" "isdigit e"
    "strftime dt = [a, b, c, e] @ CHR ''-'' # digit_char (m div 10) # digit_char (m mod 10) #
                          CHR ''-'' # [digit_char (d div 10), digit_char (d mod 10)]"
    by blast
  then show ?thesis by (simp add: canonical_date_def isdigit_digit_char)
qed

lemma strptime_valid: "strptime v fmt = Inr dt \<Longrightarrow> \<exists>y m d. datetime_new y m d = Inr dt"
  by (auto simp: strptime_def split: option.splits prod.splits if_splits)

lemma fromisoformat_valid: "fromisoformat isoparse v = Inr dt \<Longrightarrow> \<exists>y m d. datetime_new y m d = Inr dt"
  by (auto simp: fromisoformat_def split: option.splits prod.splits)

lemma try_formats_valid:
  "try_formats v fmts = Inr (Some r) \<Longrightarrow> \<exists>y m d dt. datetime_new y m d = Inr dt \<and> r = strftime dt"
proof (induction fmts)
  case Nil
  then show ?case by simp
next
  case (Cons fmt fmts)
  show ?case
  proof (cases "strptime v fmt")
    case (Inl e)
    with Cons show ?thesis by (cases e) auto
  next
    case (Inr dt)
    with Cons.prems have "r = strftime dt" by simp
    with strptime_valid [OF Inr] show ?thesis by blast
  qed
qed

lemma parse_date_valid:
  assumes "parse_date isoparse value = Inr (Some r)"
  shows "\<exists>y m d dt. datetime_new y m d = Inr dt \<and> r = strftime dt"
proof -
  let ?v = "strip value"
  from assms have ne: "?v \<noteq> []" by (auto simp: parse_date_def Let_def split: if_splits)
  obtain t where t: "try_formats ?v [FMT_YMD, FMT_DMY, FMT_MDY] = Inr t"
    using try_formats_returns by blast
  show ?thesis
  proof (cases t)
    case (Some r')
    with assms t ne have "r' = r" by (simp add: parse_date_def Let_def)
    with t Some show ?thesis using try_formats_valid by blast
  next
    case None
    with assms t ne obtain dt where "fromisoformat isoparse (remove_char (CHR ''Z'') ?v) = Inr dt" "r = strftime dt"
      by (auto simp: parse_date_def Let_def split: sum.splits py_error.splits)
    with fromisoformat_valid show ?thesis by blast
  qed
qed

lemma parse_date_03_04: "parse_date isoparse ''03/04/2024'' = Inr (Some ''2024-04-03'')"
  by (simp add: parse_date_def strip_def isspace_def FMT_YMD_def FMT_DMY_def FMT_MDY_def strptime_def
      isdigit_def datetime_new_def days_in_month_def strftime_def zfill_def digits.simps digit_char_def
      py_int_def nat_of_digits_def digit_val_def)

text \<open>
  The order of the formats: on the trimmed text the first of \<^verbatim>\<open>%Y-%m-%d\<close>,
  \<^verbatim>\<open>%d/%m/%Y\<close>, \<^verbatim>\<open>%m/%d/%Y\<close> that parses gives the result, so a text that parses as
  day/month/year and as month/day/year is read as day/month/year, and \<^verbatim>\<open>03/04/2024\<close>
  gives \<^verbatim>\<open>2024-04-03\<close>. Every result is the printed form of a date that exists, and it
  has the canonical form when the year is 1000 or later.
\<close>

lemma parse_date_first_format_wins:
  "(strptime (strip value) FMT_YMD = Inr dt \<longrightarrow> parse_date isoparse value = Inr (Some (strftime dt))) \<and>
   (strptime (strip value) FMT_YMD = Inl ValueError \<and> strptime (strip value) FMT_DMY = Inr dt
      \<longrightarrow> parse_date isoparse value = Inr (Some (strftime dt))) \<and>
   (strptime (strip value) FMT_YMD = Inl ValueError \<and> strptime (strip value) FMT_DMY = Inl ValueError \<and>
    strptime (strip value) FMT_MDY = Inr dt
      \<longrightarrow> parse_date isoparse value = Inr (Some (strftime dt))) \<and>
   (strptime (strip value) FMT_DMY = Inr dt \<and> strptime (strip value) FMT_MDY = Inr dt'
      \<longrightarrow> parse_date isoparse value = Inr (Some (strftime dt))) \<and>
   parse_date isoparse ''03/04/2024'' = Inr (Some ''2024-04-03'') \<and>
   (\<forall>r. parse_date isoparse value = Inr (Some r)
      \<longrightarrow> (\<exists>y m d dt. datetime_new y m d = Inr dt \<and> r = strftime dt \<and>
                        (1000 \<le> y \<longrightarrow> canonical_date r)))"
proof (intro conjI impI allI)
  assume "strptime (strip value) FMT_YMD = Inr dt"
  then show "parse_date isoparse value = Inr (Some (strftime dt))"
    using strptime_Nil(1) by (cases "strip value = []") (auto simp: parse_date_def Let_def)
next
  assume "strptime (strip value) FMT_YMD = Inl ValueError \<and> strptime (strip value) FMT_DMY = Inr dt"
  then show "parse_date isoparse value = Inr (Some (strftime dt))"
    using strptime_Nil(2) by (cases "strip value = []") (auto simp: parse_date_def Let_def)
next
  assume "strptime (strip value) FMT_YMD = Inl ValueError \<and> strptime (strip value) FMT_DMY = Inl ValueError \<and>
    strptime (strip value) FMT_MDY = Inr dt"
  then show "parse_date isoparse value = Inr (Some (strftime dt))"
    using strptime_Nil(3) by (cases "strip value = []") (auto simp: parse_date_def Let_def)
next
  assume a: "strptime (strip value) FMT_DMY = Inr dt \<and> strptime (strip value) FMT_MDY = Inr dt'"
  then have "strptime (strip value) FMT_YMD = Inl ValueError" by (intro strptime_DMY_not_YMD) simp
  with a show "parse_date isoparse value = Inr (Some (strftime dt))"
    using strptime_Nil(2) by (cases "strip value = []") (auto simp: parse_date_def Let_def)
next
  show "parse_date isoparse ''03/04/2024'' = Inr (Some ''2024-04-03'')" by (rule parse_date_03_04)
next
  fix r assume "parse_date isoparse value = Inr (Some r)"
  from parse_date_valid [OF this] obtain y m d dt' where v: "datetime_new y m d = Inr dt'" "r = strftime dt'"
    by blast
  then have "1000 \<le> y \<longrightarrow> canonical_date r" using strftime_canonical by blast
  with v show "\<exists>y m d dt. datetime_new y m d = Inr dt \<and> r = strftime dt \<and> (1000 \<le> y \<longrightarrow> canonical_date r)"
    by blast
qed

text \<open>
  Claim C5: the date parser tries the formats \<^verbatim>\<open>%Y-%m-%d\<close>, \<^verbatim>\<open>%d/%m/%Y\<close>,
  \<^verbatim>\<open>%m/%d/%Y\<close> in this order, the first that parses wins, and the output is always
  re-emitted in the canonical form \<^verbatim>\<open>YYYY-MM-DD\<close>. The order holds (lemma
  \<open>parse_date_first_format_wins\<close>), the canonical form does not: the code prints the date
  with \<^verbatim>\<open>strftime("%Y-%m-%d")\<close>, which does not pad the year, so the text
  \<^verbatim>\<open>0999-01-01\<close>, a date in canonical form, comes back as \<^verbatim>\<open>999-01-01\<close>, which is
  not of the form \<^verbatim>\<open>YYYY-MM-DD\<close> that the source documents for the date field.
\<close>

theorem parse_date_year_below_1000:
  "parse_date isoparse ''0999-01-01'' = Inr (Some ''999-01-01'') \<and>
   canonical_date ''0999-01-01'' \<and> \<not> canonical_date ''999-01-01''"
  by (simp add: parse_date_def strip_def isspace_def FMT_YMD_def FMT_DMY_def FMT_MDY_def strptime_def
      isdigit_def datetime_new_def days_in_month_def strftime_def zfill_def digits.simps digit_char_def
      py_int_def nat_of_digits_def digit_val_def canonical_date_def)

subsection \<open>Reading a file\<close>

lemmas csv_eval = parse_process_char_def start_field_def parse_add_char_def parse_save_field_def
  field_limit_def process_line_def parse_reset_def LF_def CR_def quotechar_def delimiter_def

lemma header_text: "writerow STANDARD_COLUMNS = ''date,amount,category,description'' @ [CR, LF]"
  by (simp add: writerow_def STANDARD_COLUMNS_def quote_field_def needs_quotes_def
      LF_def CR_def quotechar_def delimiter_def)

lemma lines_from_LF: "lines_from cur (LF # rest) = (cur @ [LF]) # lines_from [] rest"
  by (cases rest) simp_all

lemma lines_from_CRLF: "lines_from cur (CR # LF # rest) = (cur @ [CR, LF]) # lines_from [] rest"
  by (simp add: CR_def LF_def)

lemma lines_from_plain: "c \<noteq> LF \<Longrightarrow> c \<noteq> CR \<Longrightarrow> rest \<noteq> [] \<Longrightarrow> lines_from cur (c # rest) = lines_from (cur @ [c]) rest"
  by (cases rest) simp_all

lemma header_line_canonical:
  "process_line parse_reset (''date,amount,category,description'' @ nl) =
     Inr \<lparr>p_state = START_RECORD, p_fields = [''date'', ''amount'', ''category'', ''description''], p_field = []\<rparr>"
  if "nl = [LF] \<or> nl = [CR, LF]"
  using that by (auto simp: csv_eval)

lemma header_line_bank:
  "process_line parse_reset (''Txn Date,Debit,Type,Merchant'' @ nl) =
     Inr \<lparr>p_state = START_RECORD, p_fields = [''Txn Date'', ''Debit'', ''Type'', ''Merchant''], p_field = []\<rparr>"
  if "nl = [LF] \<or> nl = [CR, LF]"
  using that by (auto simp: csv_eval)

lemmas header_lines =
  header_line_canonical [of "[LF]", simplified] header_line_canonical [of "[CR, LF]", simplified]
  header_line_bank [of "[LF]", simplified] header_line_bank [of "[CR, LF]", simplified]

lemma file_lines_header:
  assumes "nl = [LF] \<or> nl = [CR, LF]" "list_all (\<lambda>c. c \<noteq> LF \<and> c \<noteq> CR) h"
  shows "lines_from cur (h @ nl @ body) = (cur @ h @ nl) # lines_from [] body"
  using assms(2)
proof (induction h arbitrary: cur)
  case Nil
  from assms(1) show ?case
    by (elim disjE) (simp_all add: lines_from_LF lines_from_CRLF del: lines_from.simps)
next
  case (Cons c h)
  have "h @ nl @ body \<noteq> []" using assms(1) by auto
  with Cons show ?case by (simp add: lines_from_plain)
qed

lemma parse_reset_sel:
  "p_state parse_reset = START_RECORD" "p_fields parse_reset = []" "p_field parse_reset = []"
  by (simp_all add: parse_reset_def)

lemma read_header_only: "read_expenses isoparse (''date,amount,category,description'' @ [CR, LF]) = Inr []"
proof -
  have "file_lines (''date,amount,category,description'' @ [CR, LF] @ []) = [''date,amount,category,description'' @ [CR, LF]]"
    unfolding file_lines_def by (subst file_lines_header) (simp_all add: LF_def CR_def)
  then show ?thesis
    by (simp add: read_expenses_def header_lines parse_reset_sel)
qed

lemma ensure_csv_header_missing:
  "fs path = None \<or> fs path = Some [] \<Longrightarrow>
     ensure_csv_header fs path = fs(path \<mapsto> ''date,amount,category,description'' @ [CR, LF])"
  by (auto simp: ensure_csv_header_def header_text)

lemma ensure_csv_header_present:
  "fs path = Some text \<Longrightarrow> text \<noteq> [] \<Longrightarrow> ensure_csv_header fs path = fs"
  by (simp add: ensure_csv_header_def)

text \<open>
  Claim C9: for every path whose file does not exist or is empty, \<^verbatim>\<open>load\<close> creates the
  file with the canonical header row \<^verbatim>\<open>date,amount,category,description\<close> alone and
  returns the empty list; a second \<^verbatim>\<open>load\<close> of the same path returns the empty list again
  and leaves the files as they are; and \<^verbatim>\<open>ensure_csv_header\<close> never changes a file that
  has content.
\<close>

theorem load_creates_header:
  "fs path = None \<or> fs path = Some [] \<Longrightarrow>
     load_expenses isoparse fs path =
       (fs(path \<mapsto> ''date,amount,category,description'' @ [CR, LF]), Inr []) \<and>
     load_expenses isoparse (fs(path \<mapsto> ''date,amount,category,description'' @ [CR, LF])) path =
       (fs(path \<mapsto> ''date,amount,category,description'' @ [CR, LF]), Inr []) \<and>
     (\<forall>fs' content. fs' path = Some content \<and> content \<noteq> [] \<longrightarrow> ensure_csv_header fs' path = fs')"
proof (intro conjI allI impI)
  assume a: "fs path = None \<or> fs path = Some []"
  let ?h = "''date,amount,category,description'' @ [CR, LF]"
  show "load_expenses isoparse fs path = (fs(path \<mapsto> ?h), Inr [])"
    unfolding load_expenses_def ensure_csv_header_missing [of fs path, OF a] Let_def
    using read_header_only [of isoparse] by simp
  have "ensure_csv_header (fs(path \<mapsto> ?h)) path = fs(path \<mapsto> ?h)"
    by (rule ensure_csv_header_present [of _ _ ?h]) simp_all
  then show "load_expenses isoparse (fs(path \<mapsto> ?h)) path = (fs(path \<mapsto> ?h), Inr [])"
    unfolding load_expenses_def Let_def
    using read_header_only [of isoparse] by simp
next
  fix fs' :: files and content assume "fs' path = Some content \<and> content \<noteq> []"
  then show "ensure_csv_header fs' path = fs'" by (simp add: ensure_csv_header_present)
qed

theorem load_creates_header_witness:
  "load_expenses (\<lambda>s. None) Map.empty ''data/expenses.csv'' =
     ([''data/expenses.csv'' \<mapsto> ''date,amount,category,description'' @ [CR, LF]], Inr []) \<and>
   load_expenses (\<lambda>s. None) [''data/expenses.csv'' \<mapsto> ''date,amount,category,description'' @ [CR, LF]]
       ''data/expenses.csv'' =
     ([''data/expenses.csv'' \<mapsto> ''date,amount,category,description'' @ [CR, LF]], Inr [])"
  using load_creates_header [of Map.empty "''data/expenses.csv''" "\<lambda>s. None"] by simp

subsection \<open>Header synonyms\<close>

lemmas std_eval = standardize_col_name_def strip_def lower_def lower_char_def isupper_def isspace_def mapping_def

lemma field_map_canonical:
  "dict_get (field_map [''date'', ''amount'', ''category'', ''description'']) ''date'' [] = ''date''"
  "dict_get (field_map [''date'', ''amount'', ''category'', ''description'']) ''amount'' [] = ''amount''"
  "dict_get (field_map [''date'', ''amount'', ''category'', ''description'']) ''category'' [] = ''category''"
  "dict_get (field_map [''date'', ''amount'', ''category'', ''description'']) ''description'' [] = ''description''"
  by (simp_all add: field_map_def dict_of_def dict_get_def std_eval)

lemma field_map_bank:
  "dict_get (field_map [''Txn Date'', ''Debit'', ''Type'', ''Merchant'']) ''date'' [] = ''Txn Date''"
  "dict_get (field_map [''Txn Date'', ''Debit'', ''Type'', ''Merchant'']) ''amount'' [] = ''Debit''"
  "dict_get (field_map [''Txn Date'', ''Debit'', ''Type'', ''Merchant'']) ''category'' [] = ''Type''"
  "dict_get (field_map [''Txn Date'', ''Debit'', ''Type'', ''Merchant'']) ''description'' [] = ''Merchant''"
  by (simp_all add: field_map_def dict_of_def dict_get_def std_eval)

lemma row_cases:
  obtains "row = []" | a where "row = [a]" | a b where "row = [a, b]" | a b c where "row = [a, b, c]"
    | a b c d rest where "row = a # b # c # d # rest"
  by (cases row; cases "tl row"; cases "tl (tl row)"; cases "tl (tl (tl row))") auto

lemma row_dict_four:
  assumes "distinct [k1, k2, k3, k4]"
  shows "row_dict [k1, k2, k3, k4] row k1 = Some (case row of a # _ \<Rightarrow> Str a | _ \<Rightarrow> PyNone)"
    and "row_dict [k1, k2, k3, k4] row k2 = Some (case row of _ # b # _ \<Rightarrow> Str b | _ \<Rightarrow> PyNone)"
    and "row_dict [k1, k2, k3, k4] row k3 = Some (case row of _ # _ # c # _ \<Rightarrow> Str c | _ \<Rightarrow> PyNone)"
    and "row_dict [k1, k2, k3, k4] row k4 = Some (case row of _ # _ # _ # d # _ \<Rightarrow> Str d | _ \<Rightarrow> PyNone)"
  using assms by (cases row rule: row_cases; simp add: row_dict_def dict_of_def)+

lemma validate_row_headers:
  "validate_row isoparse (field_map [''Txn Date'', ''Debit'', ''Type'', ''Merchant''])
     (row_dict [''Txn Date'', ''Debit'', ''Type'', ''Merchant''] row) =
   validate_row isoparse (field_map [''date'', ''amount'', ''category'', ''description''])
     (row_dict [''date'', ''amount'', ''category'', ''description''] row)"
  unfolding validate_row_def field_map_canonical field_map_bank
  by (simp add: dict_get_def row_dict_four)

lemma load_rows_headers:
  "load_rows isoparse (field_map [''Txn Date'', ''Debit'', ''Type'', ''Merchant''])
     [''Txn Date'', ''Debit'', ''Type'', ''Merchant''] rows =
   load_rows isoparse (field_map [''date'', ''amount'', ''category'', ''description''])
     [''date'', ''amount'', ''category'', ''description''] rows"
  by (induction rows) (auto simp: validate_row_headers split: sum.splits option.splits)

lemma read_after_header:
  assumes "process_line parse_reset line = Inr \<lparr>p_state = START_RECORD, p_fields = names, p_field = []\<rparr>"
    and "names \<noteq> []" and "file_lines content = line # rest"
  shows "read_expenses isoparse content =
           (case reader_rows parse_reset rest of
              Inl e \<Rightarrow> Inl e
            | Inr rows \<Rightarrow> load_rows isoparse (field_map names) names (filter (\<lambda>r. r \<noteq> []) rows))"
  using assms by (simp add: read_expenses_def)

lemma load_expenses_present:
  "content \<noteq> [] \<Longrightarrow>
     load_expenses isoparse (fs(path \<mapsto> content)) path = (fs(path \<mapsto> content), read_expenses isoparse content)"
  by (simp add: load_expenses_def ensure_csv_header_def)

text \<open>
  Claim C6: for every text of data rows, a file with the header
  \<^verbatim>\<open>Txn Date,Debit,Type,Merchant\<close> loads to the same result (the same list of expenses, or
  the same error) as the file with the header \<^verbatim>\<open>date,amount,category,description\<close> and
  the same data rows; the header line ends with \<^verbatim>\<open>\n\<close> or \<^verbatim>\<open>\r\n\<close>.
\<close>

theorem header_synonyms_load_identically:
  "nl = [LF] \<or> nl = [CR, LF] \<Longrightarrow>
     snd (load_expenses isoparse (fs(path \<mapsto> ''Txn Date,Debit,Type,Merchant'' @ nl @ body)) path) =
     snd (load_expenses isoparse (fs(path \<mapsto> ''date,amount,category,description'' @ nl @ body)) path)"
proof -
  assume nl: "nl = [LF] \<or> nl = [CR, LF]"
  let ?h1 = "''Txn Date,Debit,Type,Merchant''" and ?h2 = "''date,amount,category,description''"
  have l1: "file_lines (?h1 @ nl @ body) = (?h1 @ nl) # file_lines body"
    unfolding file_lines_def using file_lines_header [OF nl, of ?h1 "[]" body]
    by (simp add: LF_def CR_def)
  have l2: "file_lines (?h2 @ nl @ body) = (?h2 @ nl) # file_lines body"
    unfolding file_lines_def using file_lines_header [OF nl, of ?h2 "[]" body]
    by (simp add: LF_def CR_def)
  have r1: "read_expenses isoparse (?h1 @ nl @ body) =
      (case reader_rows parse_reset (file_lines body) of
              Inl e \<Rightarrow> Inl e
            | Inr rows \<Rightarrow> load_rows isoparse (field_map [''Txn Date'', ''Debit'', ''Type'', ''Merchant''])
                 [''Txn Date'', ''Debit'', ''Type'', ''Merchant''] (filter (\<lambda>r. r \<noteq> []) rows))"
    by (rule read_after_header [OF header_line_bank [OF nl] _ l1]) simp
  have r2: "read_expenses isoparse (?h2 @ nl @ body) =
      (case reader_rows parse_reset (file_lines body) of
              Inl e \<Rightarrow> Inl e
            | Inr rows \<Rightarrow> load_rows isoparse (field_map [''date'', ''amount'', ''category'', ''description''])
                 [''date'', ''amount'', ''category'', ''description''] (filter (\<lambda>r. r \<noteq> []) rows))"
    by (rule read_after_header [OF header_line_canonical [OF nl] _ l2]) simp
  have "snd (load_expenses isoparse (fs(path \<mapsto> ?h1 @ nl @ body)) path) = read_expenses isoparse (?h1 @ nl @ body)"
    by (subst load_expenses_present) simp_all
  also have "\<dots> = read_expenses isoparse (?h2 @ nl @ body)"
    by (simp only: r1 r2 load_rows_headers)
  also have "\<dots> = snd (load_expenses isoparse (fs(path \<mapsto> ?h2 @ nl @ body)) path)"
    by (subst load_expenses_present) simp_all
  finally show ?thesis .
qed

subsection \<open>Amounts that round to zero\<close>

lemmas date_eval = parse_date_def strip_def isspace_def FMT_YMD_def FMT_DMY_def FMT_MDY_def strptime_def
  isdigit_def datetime_new_def days_in_month_def is_leap_def strftime_def zfill_def digits.simps digit_char_def
  py_int_def nat_of_digits_def digit_val_def

lemma parse_date_2024_01_01: "parse_date isoparse ''2024-01-01'' = Inr (Some ''2024-01-01'')"
  by (simp add: date_eval)

lemma row_line_small:
  "process_line parse_reset (''2024-01-01,0.001,food,lunch'' @ [LF]) =
     Inr \<lparr>p_state = START_RECORD, p_fields = [''2024-01-01'', ''0.001'', ''food'', ''lunch''], p_field = []\<rparr>"
  by (simp add: csv_eval)

lemma lines_from_Nil: "lines_from [] [] = []"
  by simp

lemma read_small_amount:
  "read_expenses isoparse
     (''date,amount,category,description'' @ [LF] @ ''2024-01-01,0.001,food,lunch'' @ [LF]) =
   Inr [\<lparr>date = ''2024-01-01'', amount = Fin 0, category = ''food'', description = ''lunch''\<rparr>]"
proof -
  have nl: "[LF] = [LF] \<or> [LF] = [CR, LF]" by simp
  have l: "file_lines (''date,amount,category,description'' @ [LF] @ ''2024-01-01,0.001,food,lunch'' @ [LF]) =
        [''date,amount,category,description'' @ [LF], ''2024-01-01,0.001,food,lunch'' @ [LF]]"
    unfolding file_lines_def
    using file_lines_header [OF nl, of "''date,amount,category,description''" "[]" "''2024-01-01,0.001,food,lunch'' @ [LF]"]
      file_lines_header [OF nl, of "''2024-01-01,0.001,food,lunch''" "[]" "[]"]
    by (simp add: LF_def CR_def)
  have rows: "reader_rows parse_reset [''2024-01-01,0.001,food,lunch'' @ [LF]] =
      Inr [[''2024-01-01'', ''0.001'', ''food'', ''lunch'']]"
    using row_line_small [simplified] by (simp add: parse_reset_sel)
  have v: "validate_row isoparse (field_map [''date'', ''amount'', ''category'', ''description''])
        (row_dict [''date'', ''amount'', ''category'', ''description''] [''2024-01-01'', ''0.001'', ''food'', ''lunch'']) =
      Inr (Some \<lparr>date = ''2024-01-01'', amount = Fin 0, category = ''food'', description = ''lunch''\<rparr>)"
    unfolding validate_row_def field_map_canonical
    by (simp add: dict_get_def row_dict_four parse_date_2024_01_01 parse_amount_0_001 strip_def isspace_def)
  show ?thesis
    by (subst read_after_header [OF header_line_canonical [OF nl] _ l [unfolded append_assoc]])
      (simp_all add: rows [simplified] v)
qed

theorem header_synonyms_load_identically_witness:
  "snd (load_expenses (\<lambda>s. None)
          [''bank.csv'' \<mapsto> ''Txn Date,Debit,Type,Merchant'' @ [LF] @ ''2024-01-01,0.001,food,lunch'' @ [LF]]
          ''bank.csv'') =
   snd (load_expenses (\<lambda>s. None)
          [''bank.csv'' \<mapsto> ''date,amount,category,description'' @ [LF] @ ''2024-01-01,0.001,food,lunch'' @ [LF]]
          ''bank.csv'') \<and>
   snd (load_expenses (\<lambda>s. None)
          [''bank.csv'' \<mapsto> ''date,amount,category,description'' @ [LF] @ ''2024-01-01,0.001,food,lunch'' @ [LF]]
          ''bank.csv'') =
   Inr [\<lparr>date = ''2024-01-01'', amount = Fin 0, category = ''food'', description = ''lunch''\<rparr>]"
proof -
  have nl: "[LF] = [LF] \<or> [LF] = [CR, LF]" by simp
  have "snd (load_expenses (\<lambda>s. None)
          [''bank.csv'' \<mapsto> ''date,amount,category,description'' @ [LF] @ ''2024-01-01,0.001,food,lunch'' @ [LF]]
          ''bank.csv'') =
        Inr [\<lparr>date = ''2024-01-01'', amount = Fin 0, category = ''food'', description = ''lunch''\<rparr>]"
    by (subst load_expenses_present) (simp_all add: read_small_amount [simplified])
  with header_synonyms_load_identically [OF nl, of "\<lambda>s. None" Map.empty "''bank.csv''"
      "''2024-01-01,0.001,food,lunch'' @ [LF]"]
  show ?thesis by simp
qed

text \<open>
  Claim C2: every expense that \<^verbatim>\<open>load\<close> returns has an amount strictly greater than 0
  (with a parsed canonical date and non-empty category and description). The code checks
  \<^verbatim>\<open>amt <= 0\<close> before it rounds: the amount \<^verbatim>\<open>0.001\<close> passes the check, rounds to
  0.0 and is kept, so the file below loads to an expense whose amount is 0.
\<close>

theorem load_keeps_zero_amount:
  "snd (load_expenses isoparse
          [''expenses.csv'' \<mapsto>
             ''date,amount,category,description'' @ [LF] @ ''2024-01-01,0.001,food,lunch'' @ [LF]]
          ''expenses.csv'') =
   Inr [\<lparr>date = ''2024-01-01'', amount = Fin 0, category = ''food'', description = ''lunch''\<rparr>] \<and>
   \<not> gt_zero (Fin 0)"
  by (subst load_expenses_present) (simp_all add: read_small_amount [simplified])

subsection \<open>Dictionaries built from pairs\<close>

lemma dict_of_snoc: "dict_of (kvs @ [(k, v)]) = (dict_of kvs)(k \<mapsto> v)"
  by (simp add: dict_of_def)

lemma dict_of_Nil: "dict_of [] = Map.empty"
  by (simp add: dict_of_def)

lemma zip_snoc: "length ks = length vs \<Longrightarrow> zip (ks @ [a]) (vs @ [b]) = zip ks vs @ [(a, b)]"
  by simp

text \<open>The value of a key is the value at its last position.\<close>

lemma dict_of_zip_last:
  assumes "length vs = length ks" "p < length ks" "ks ! p = k"
    and "\<forall>q. p < q \<and> q < length ks \<longrightarrow> ks ! q \<noteq> k"
  shows "dict_of (zip ks vs) k = Some (vs ! p)"
  using assms
proof (induction ks arbitrary: vs rule: rev_induct)
  case Nil
  then show ?case by simp
next
  case (snoc a ks)
  from snoc.prems(1) obtain b vs' where vs: "vs = vs' @ [b]" and len: "length vs' = length ks"
    by (cases vs rule: rev_cases) auto
  have d: "dict_of (zip (ks @ [a]) vs) = (dict_of (zip ks vs'))(a \<mapsto> b)"
    using len by (simp add: vs dict_of_snoc)
  have dk: "dict_of (zip (ks @ [a]) vs) k = (if a = k then Some b else dict_of (zip ks vs') k)"
    by (simp add: d)
  show ?case
  proof (cases "p = length ks")
    case True
    with snoc.prems(3) have "a = k" by simp
    moreover have "vs ! p = b" using True len by (simp add: vs nth_append)
    ultimately show ?thesis using dk by simp
  next
    case False
    with snoc.prems(2) have p: "p < length ks" by simp
    with snoc.prems(4) have "a \<noteq> k" by (auto simp: nth_append dest: spec [of _ "length ks"])
    moreover have "dict_of (zip ks vs') k = Some (vs' ! p)"
    proof (rule snoc.IH [OF len p])
      show "ks ! p = k" using snoc.prems(3) p by (simp add: nth_append)
      show "\<forall>q. p < q \<and> q < length ks \<longrightarrow> ks ! q \<noteq> k"
        using snoc.prems(4) by (auto simp: nth_append split: if_splits)
    qed
    moreover have "vs ! p = vs' ! p" using p len by (simp add: vs nth_append)
    ultimately show ?thesis using dk by simp
  qed
qed

lemma dict_of_zip_Some:
  assumes "length vs = length ks" "dict_of (zip ks vs) k = Some v"
  shows "\<exists>p < length ks. ks ! p = k \<and> vs ! p = v \<and> (\<forall>q. p < q \<and> q < length ks \<longrightarrow> ks ! q \<noteq> k)"
  using assms
proof (induction ks arbitrary: vs rule: rev_induct)
  case Nil
  then show ?case by (simp add: dict_of_Nil)
next
  case (snoc a ks)
  from snoc.prems(1) obtain b vs' where vs: "vs = vs' @ [b]" and len: "length vs' = length ks"
    by (cases vs rule: rev_cases) auto
  have d: "dict_of (zip (ks @ [a]) vs) = (dict_of (zip ks vs'))(a \<mapsto> b)"
    using len by (simp add: vs dict_of_snoc)
  have dk: "dict_of (zip (ks @ [a]) vs) k = (if a = k then Some b else dict_of (zip ks vs') k)"
    by (simp add: d)
  show ?case
  proof (cases "a = k")
    case True
    with snoc.prems(2) dk have "v = b" by simp
    with True len show ?thesis
      by (intro exI [of _ "length ks"]) (auto simp: vs nth_append)
  next
    case False
    with snoc.prems(2) dk have "dict_of (zip ks vs') k = Some v" by simp
    from snoc.IH [OF len this] obtain p where p: "p < length ks" "ks ! p = k" "vs' ! p = v"
      "\<forall>q. p < q \<and> q < length ks \<longrightarrow> ks ! q \<noteq> k" by blast
    have "\<forall>q. p < q \<and> q < length (ks @ [a]) \<longrightarrow> (ks @ [a]) ! q \<noteq> k"
      using p(4) False by (auto simp: nth_append less_Suc_eq)
    with p(1-3) len show ?thesis
      by (intro exI [of _ p]) (simp add: vs nth_append)
  qed
qed

text \<open>A value at a position that a later position of the same key shadows is never read.\<close>

lemma dict_of_zip_update:
  assumes "length vs = length ks"
    and "i < length ks \<longrightarrow> ks ! i \<noteq> k \<or> (\<exists>q. i < q \<and> q < length ks \<and> ks ! q = k)"
  shows "dict_of (zip ks (vs[i := x])) k = dict_of (zip ks vs) k"
proof (cases "dict_of (zip ks vs) k")
  case None
  show ?thesis
  proof (cases "dict_of (zip ks (vs[i := x])) k")
    case (Some v)
    from dict_of_zip_Some [OF _ Some] assms(1) obtain p where p: "p < length ks" "ks ! p = k"
      "\<forall>q. p < q \<and> q < length ks \<longrightarrow> ks ! q \<noteq> k" by auto
    from dict_of_zip_last [OF assms(1) p] None show ?thesis by simp
  qed (simp add: None)
next
  case (Some v)
  from dict_of_zip_Some [OF assms(1) Some] obtain p where p: "p < length ks" "ks ! p = k" "vs ! p = v"
    "\<forall>q. p < q \<and> q < length ks \<longrightarrow> ks ! q \<noteq> k" by blast
  have "p \<noteq> i" using assms(2) p by (metis linorder_neqE_nat)
  moreover have "dict_of (zip ks (vs[i := x])) k = Some ((vs[i := x]) ! p)"
    by (rule dict_of_zip_last [OF _ p(1,2,4)]) (simp add: assms(1))
  ultimately show ?thesis using Some p(3) by simp
qed

lemma row_dict_zip:
  "row_dict hs row =
     dict_of (zip hs (map Str (take (length hs) row) @ replicate (length hs - length row) PyNone))"
proof -
  have "zip hs (map Str row) @ map (\<lambda>k. (k, PyNone)) (drop (length row) hs) =
        zip hs (map Str (take (length hs) row) @ replicate (length hs - length row) PyNone)"
  proof (induction hs arbitrary: row)
    case Nil
    show ?case by simp
  next
    case (Cons h hs)
    show ?case
    proof (cases row)
      case Nil
      with Cons [of "[]"] show ?thesis by simp
    next
      case (Cons r row')
      with Cons.IH [of row'] show ?thesis by simp
    qed
  qed
  then show ?thesis by (simp add: row_dict_def)
qed

lemma field_map_zip: "field_map hs = dict_of (zip (map standardize_col_name hs) hs)"
proof -
  have "map (\<lambda>h. (standardize_col_name h, h)) hs = zip (map standardize_col_name hs) hs"
    by (induction hs) simp_all
  then show ?thesis by (simp add: field_map_def)
qed

lemma standardize_Nil: "standardize_col_name [] = []"
  by (simp add: standardize_col_name_def strip_def lower_def mapping_def)

lemma STANDARD_nonempty: "c \<in> set STANDARD_COLUMNS \<Longrightarrow> c \<noteq> []"
  by (auto simp: STANDARD_COLUMNS_def)

lemma validate_row_cong:
  assumes "\<And>c. row (dict_get fm c []) = row' (dict_get fm c [])"
  shows "validate_row isoparse fm row = validate_row isoparse fm row'"
  using assms by (simp add: validate_row_def dict_get_def)

subsection \<open>Two columns for one canonical field\<close>

text \<open>The column that backs a canonical name is never a column that a later one shadows.\<close>

lemma shadowed_column_not_read:
  assumes ij: "i < j" "j < length hs"
    and same: "standardize_col_name (hs ! i) = standardize_col_name (hs ! j)"
    and canon: "standardize_col_name (hs ! j) \<in> set STANDARD_COLUMNS"
  shows "row_dict hs (row[i := v]) (dict_get (field_map hs) c []) =
         row_dict hs row (dict_get (field_map hs) c [])"
proof (cases "i < length row")
  case False
  then show ?thesis by (simp add: list_update_beyond)
next
  case True
  let ?k = "dict_get (field_map hs) c []"
  let ?cells = "map Str (take (length hs) row) @ replicate (length hs - length row) PyNone"
  have len: "length ?cells = length hs" by simp
  have upd: "map Str (take (length hs) (row[i := v])) @ replicate (length hs - length (row[i := v])) PyNone
             = ?cells[i := Str v]"
  proof -
    have "i < length (map Str (take (length hs) row))" using True ij by simp
    then have "?cells[i := Str v] = (map Str (take (length hs) row))[i := Str v] @ replicate (length hs - length row) PyNone"
      by (rule list_update_append1)
    also have "(map Str (take (length hs) row))[i := Str v] = map Str (take (length hs) (row[i := v]))"
      by (simp add: take_update_swap map_update)
    finally show ?thesis by simp
  qed
  have key: "hs ! i \<noteq> ?k \<or> (\<exists>q. i < q \<and> q < length hs \<and> hs ! q = ?k)"
  proof (cases "field_map hs c")
    case None
    then have "?k = []" by (simp add: dict_get_def)
    moreover have "hs ! i \<noteq> []"
    proof
      assume "hs ! i = []"
      with same have "standardize_col_name (hs ! j) = []" by (simp add: standardize_Nil)
      with canon STANDARD_nonempty show False by auto
    qed
    ultimately show ?thesis by simp
  next
    case (Some h)
    then have k: "?k = h" by (simp add: dict_get_def)
    from Some have "dict_of (zip (map standardize_col_name hs) hs) c = Some h"
      by (simp add: field_map_zip)
    then have "\<exists>p<length (map standardize_col_name hs).
        map standardize_col_name hs ! p = c \<and> hs ! p = h \<and>
        (\<forall>q. p < q \<and> q < length (map standardize_col_name hs) \<longrightarrow> map standardize_col_name hs ! q \<noteq> c)"
      by (intro dict_of_zip_Some) simp_all
    then obtain p where p1: "p < length (map standardize_col_name hs)"
      and p2: "map standardize_col_name hs ! p = c" and p3: "hs ! p = h"
      and p4: "\<forall>q. p < q \<and> q < length (map standardize_col_name hs) \<longrightarrow> map standardize_col_name hs ! q \<noteq> c"
      by (elim exE conjE)
    from p1 have pl: "p < length hs" by simp
    from p2 pl have pc: "standardize_col_name (hs ! p) = c" by simp
    from p4 have "p < j \<and> j < length (map standardize_col_name hs) \<longrightarrow> map standardize_col_name hs ! j \<noteq> c"
      by (rule spec)
    with ij(2) have pj: "p < j \<Longrightarrow> standardize_col_name (hs ! j) \<noteq> c" by simp
    show ?thesis
    proof (cases "hs ! i = h")
      case False
      with k show ?thesis by simp
    next
      case True
      with p3 have "hs ! i = hs ! p" by simp
      with pc same have "standardize_col_name (hs ! j) = c" by simp
      with pj have "\<not> p < j" by (rule_tac notI) simp
      with ij(1) have "i < p" by simp
      with pl p3 k have "i < p \<and> p < length hs \<and> hs ! p = ?k" by simp
      then show ?thesis by (intro disjI2 exI [of _ p])
    qed
  qed
  have "dict_of (zip hs (?cells[i := Str v])) ?k = dict_of (zip hs ?cells) ?k"
    by (rule dict_of_zip_update [OF len]) (use key in blast)
  then show ?thesis by (simp only: row_dict_zip upd)
qed

text \<open>
  Claim C7: when the headers of the columns \<open>i < j\<close> normalise to the same canonical field
  name, the mapping is last-write-wins. If no later column normalises to that name, the
  field is backed by column \<open>j\<close>: the mapping gives the header of column \<open>j\<close>, under which
  a row has its value of column \<open>j\<close> (\<^verbatim>\<open>None\<close> when the row is too short). And the value
  of the earlier column \<open>i\<close> is ignored: whatever stands there, the row validates to the
  same result.
\<close>

theorem duplicate_columns_last_wins:
  assumes "i < j" "j < length hs"
    and "standardize_col_name (hs ! i) = standardize_col_name (hs ! j)"
    and "standardize_col_name (hs ! j) \<in> set STANDARD_COLUMNS"
  shows "((\<forall>k. j < k \<and> k < length hs \<longrightarrow> standardize_col_name (hs ! k) \<noteq> standardize_col_name (hs ! j)) \<longrightarrow>
            field_map hs (standardize_col_name (hs ! j)) = Some (hs ! j) \<and>
            row_dict hs row (hs ! j) = Some (if j < length row then Str (row ! j) else PyNone)) \<and>
         validate_row isoparse (field_map hs) (row_dict hs (row[i := v])) =
         validate_row isoparse (field_map hs) (row_dict hs row)"
proof (intro conjI impI)
  assume last: "\<forall>k. j < k \<and> k < length hs \<longrightarrow> standardize_col_name (hs ! k) \<noteq> standardize_col_name (hs ! j)"
  have "dict_of (zip (map standardize_col_name hs) hs) (standardize_col_name (hs ! j)) = Some (hs ! j)"
    by (rule dict_of_zip_last) (use assms(2) last in auto)
  then show "field_map hs (standardize_col_name (hs ! j)) = Some (hs ! j)"
    by (simp add: field_map_zip)
  let ?cells = "map Str (take (length hs) row) @ replicate (length hs - length row) PyNone"
  have "dict_of (zip hs ?cells) (hs ! j) = Some (?cells ! j)"
  proof (rule dict_of_zip_last)
    show "\<forall>q. j < q \<and> q < length hs \<longrightarrow> hs ! q \<noteq> hs ! j"
    proof (intro allI impI notI)
      fix q assume "j < q \<and> q < length hs" "hs ! q = hs ! j"
      with last show False by auto
    qed
  qed (use assms(2) in auto)
  moreover have "?cells ! j = (if j < length row then Str (row ! j) else PyNone)"
    using assms(2) by (auto simp: nth_append)
  ultimately show "row_dict hs row (hs ! j) = Some (if j < length row then Str (row ! j) else PyNone)"
    by (simp only: row_dict_zip)
next
  show "validate_row isoparse (field_map hs) (row_dict hs (row[i := v])) =
        validate_row isoparse (field_map hs) (row_dict hs row)"
    by (rule validate_row_cong) (rule shadowed_column_not_read [OF assms])
qed


theorem duplicate_columns_last_wins_witness:
  "field_map [''amount'', ''date'', ''Debit'', ''category'', ''description''] ''amount'' = Some ''Debit'' \<and>
   row_dict [''amount'', ''date'', ''Debit'', ''category'', ''description'']
     [''5'', ''2024-01-01'', ''7'', ''food'', ''lunch''] ''Debit'' = Some (Str ''7'') \<and>
   validate_row (\<lambda>s. None) (field_map [''amount'', ''date'', ''Debit'', ''category'', ''description''])
     (row_dict [''amount'', ''date'', ''Debit'', ''category'', ''description'']
        ([''5'', ''2024-01-01'', ''7'', ''food'', ''lunch''][0 := ''900''])) =
   validate_row (\<lambda>s. None) (field_map [''amount'', ''date'', ''Debit'', ''category'', ''description''])
     (row_dict [''amount'', ''date'', ''Debit'', ''category'', ''description'']
        [''5'', ''2024-01-01'', ''7'', ''food'', ''lunch''])"
proof -
  let ?hs = "[''amount'', ''date'', ''Debit'', ''category'', ''description'']"
  have s0: "standardize_col_name ''amount'' = ''amount''" and s2: "standardize_col_name ''Debit'' = ''amount''"
    and s3: "standardize_col_name ''category'' = ''category''"
    and s4: "standardize_col_name ''description'' = ''description''"
    by (simp_all add: std_eval)
  have a: "(0::nat) < 2" "2 < length ?hs" by simp_all
  have b: "standardize_col_name (?hs ! 0) = standardize_col_name (?hs ! 2)" by (simp add: s0 s2)
  have c: "standardize_col_name (?hs ! 2) \<in> set STANDARD_COLUMNS" by (simp add: s2 STANDARD_COLUMNS_def)
  have d: "\<forall>k. 2 < k \<and> k < length ?hs \<longrightarrow> standardize_col_name (?hs ! k) \<noteq> standardize_col_name (?hs ! 2)"
  proof (intro allI impI)
    fix k :: nat assume "2 < k \<and> k < length ?hs"
    then have "k = 3 \<or> k = 4" by auto
    then show "standardize_col_name (?hs ! k) \<noteq> standardize_col_name (?hs ! 2)"
      by (auto simp: s2 s3 s4)
  qed
  from duplicate_columns_last_wins [OF a b c, of "[''5'', ''2024-01-01'', ''7'', ''food'', ''lunch'']" "\<lambda>s. None" "''900''"] d
  show ?thesis by (simp add: s2)
qed

subsection \<open>The reader, one character at a time\<close>

lemma process_chars_append:
  "process_chars r (s @ t) =
     (case process_chars r s of Inl e \<Rightarrow> Inl e | Inr r' \<Rightarrow> process_chars r' t)"
  by (induction s arbitrary: r) (auto split: sum.splits)

lemma process_chars_snoc:
  "process_chars r0 cur = Inr r \<Longrightarrow> process_chars r0 (cur @ [c]) = parse_process_char r (Some c)"
  by (simp add: process_chars_append split: sum.splits)

lemma process_chars_error_append:
  "process_chars r0 cur = Inl e \<Longrightarrow> process_chars r0 (cur @ t) = Inl e"
  by (simp add: process_chars_append)

lemma process_line_error: "process_chars r0 cur = Inl e \<Longrightarrow> process_line r0 (cur @ t) = Inl e"
  by (simp add: process_line_def process_chars_error_append)

lemma CR_neq_LF: "CR \<noteq> LF"
  by (simp add: CR_def LF_def)

lemma reader_rows_error:
  "process_chars r0 cur = Inl e \<Longrightarrow> reader_rows r0 (lines_from cur rest) = Inl e"
proof (induction cur rest rule: lines_from.induct)
  case (1 cur)
  then have "cur \<noteq> []" by auto
  with 1 process_line_error [of r0 cur e "[]"] show ?case by simp
next
  case (2 cur c)
  with process_line_error [of r0 cur e "[c]"] show ?case by simp
next
  case (3 cur c d cs)
  note pl = process_line_error [OF "3.prems"]
  have e3: "process_chars r0 (cur @ [c]) = Inl e"
    using "3.prems" by (rule process_chars_error_append)
  show ?case
  proof (cases "c = LF \<or> c = CR")
    case True
    then show ?thesis by (auto simp: pl CR_neq_LF)
  next
    case False
    with "3.IH"(4) e3 show ?thesis by simp
  qed
qed

lemma reader_rows_line:
  "reader_rows r0 (line # ls) =
     (case process_chars r0 line of
        Inl e \<Rightarrow> Inl e
      | Inr r \<Rightarrow> end_line r (\<lambda>r'. reader_rows r' ls))"
  by (simp add: process_line_def end_line_def split: sum.splits)

lemma reader_rows_line_error:
  "process_chars r0 line = Inl e \<Longrightarrow> reader_rows r0 (line # ls) = Inl e"
  by (simp add: reader_rows_line del: reader_rows.simps)

lemma reader_rows_feed:
  "process_chars r0 cur = Inr r \<Longrightarrow> reader_rows r0 (lines_from cur rest) = feed r (cur \<noteq> []) rest"
proof (induction cur rest arbitrary: r0 r rule: lines_from.induct)
  case (1 cur)
  show ?case
  proof (cases "cur = []")
    case True
    with 1 show ?thesis by simp
  next
    case False
    with 1 show ?thesis by (simp add: reader_rows_line del: reader_rows.simps)
  qed
next
  case (2 cur c)
  then show ?case
    by (simp add: reader_rows_line process_chars_snoc del: reader_rows.simps split: sum.splits)
next
  case (3 cur c d cs)
  have nil: "\<And>r'. process_chars r' [] = Inr r'" by simp
  note rr = reader_rows_line [of r0 "cur @ [c]"] reader_rows_line [of r0 "cur @ [c, d]"]
  show ?case
  proof (cases "parse_process_char r (Some c)")
    case (Inl e)
    with "3.prems" have e: "process_chars r0 (cur @ [c]) = Inl e" by (simp add: process_chars_snoc)
    have a: "process_chars r0 (cur @ [c, d]) = Inl e"
      using process_chars_error_append [OF e, of "[d]"] by simp
    have b: "reader_rows r0 (lines_from (cur @ [c]) (d # cs)) = Inl e"
      using e by (rule reader_rows_error)
    have l1: "\<And>ls. reader_rows r0 ((cur @ [c]) # ls) = Inl e"
      using e by (rule reader_rows_line_error)
    have l2: "\<And>ls. reader_rows r0 ((cur @ [c, d]) # ls) = Inl e"
      using a by (rule reader_rows_line_error)
    have lhs: "reader_rows r0 (lines_from cur (c # d # cs)) = Inl e"
      using l1 l2 b
      by (cases "c = LF"; cases "c = CR"; cases "d = LF") (simp_all del: reader_rows.simps add: CR_neq_LF)
    have rhs: "feed r (cur \<noteq> []) (c # d # cs) = Inl e"
      using Inl by simp
    from lhs rhs show ?thesis by simp
  next
    case (Inr r1)
    with "3.prems" have r1: "process_chars r0 (cur @ [c]) = Inr r1" by (simp add: process_chars_snoc)
    show ?thesis
    proof (cases "c = LF")
      case True
      with Inr r1 "3.IH"(1) [OF True nil] show ?thesis
        by (simp add: reader_rows_line del: reader_rows.simps)
    next
      case nlf: False
      show ?thesis
      proof (cases "c = CR")
        case cr: True
        show ?thesis
        proof (cases "d = LF")
          case True
          have "process_chars r0 (cur @ [c, d]) = parse_process_char r1 (Some d)"
            using process_chars_snoc [OF r1, of d] by simp
          with nlf cr True Inr "3.IH"(2) [OF nlf cr True nil] show ?thesis
            by (simp add: reader_rows_line del: reader_rows.simps split: sum.splits)
        next
          case False
          with nlf cr Inr r1 "3.IH"(3) [OF nlf cr False nil] show ?thesis
            by (simp add: reader_rows_line del: reader_rows.simps)
        qed
      next
        case False
        with nlf Inr "3.IH"(4) [OF nlf False r1] show ?thesis by simp
      qed
    qed
  qed
qed

lemma feed_flag: "t \<noteq> [] \<Longrightarrow> feed r ne t = feed r ne' t"
  by (cases t; cases "tl t") auto

lemma feed_char:
  "c \<noteq> LF \<Longrightarrow> c \<noteq> CR \<Longrightarrow>
     feed r ne (c # t) =
       (case parse_process_char r (Some c) of Inl e \<Rightarrow> Inl e | Inr r1 \<Rightarrow> feed r1 True t)"
  by (cases t) (simp_all split: sum.splits)

lemma end_line_quoted: "p_state r = IN_QUOTED_FIELD \<Longrightarrow> end_line r k = k r"
  by (simp add: end_line_def parse_process_char_def)

lemma quoted_add_char:
  "p_state r = IN_QUOTED_FIELD \<Longrightarrow> c \<noteq> quotechar \<Longrightarrow> length (p_field r) < field_limit \<Longrightarrow>
     parse_process_char r (Some c) = Inr (r\<lparr>p_field := p_field r @ [c]\<rparr>)"
  by (simp add: parse_process_char_def parse_add_char_def)

lemma quotechar_plain: "quotechar \<noteq> LF" "quotechar \<noteq> CR" "delimiter \<noteq> LF" "delimiter \<noteq> CR"
  "quotechar \<noteq> delimiter" "delimiter \<noteq> quotechar" "CR \<noteq> LF" "LF \<noteq> CR"
  by (simp_all add: quotechar_def delimiter_def LF_def CR_def)

lemma feed_quoted_char:
  assumes "p_state r = IN_QUOTED_FIELD" "c \<noteq> quotechar" "t \<noteq> []" "length (p_field r) < field_limit"
  shows "feed r ne (c # t) = feed (r\<lparr>p_field := p_field r @ [c]\<rparr>) ne' t"
proof -
  let ?r1 = "r\<lparr>p_field := p_field r @ [c]\<rparr>"
  have p: "parse_process_char r (Some c) = Inr ?r1"
    using assms by (simp add: quoted_add_char)
  have s1: "p_state ?r1 = IN_QUOTED_FIELD" using assms(1) by simp
  note el = end_line_quoted [OF s1]
  from assms(3) obtain d cs where t: "t = d # cs" by (cases t) auto
  show ?thesis
  proof (cases "c = LF")
    case True
    have "feed r ne (c # t) = feed ?r1 False (d # cs)"
      using True p el by (simp add: t)
    then show ?thesis using feed_flag [of "d # cs" ?r1 False ne'] by (simp add: t)
  next
    case nlf: False
    show ?thesis
    proof (cases "c = CR")
      case cr: True
      show ?thesis
      proof (cases "d = LF")
        case True
        show ?thesis
        proof (cases cs)
          case Nil
          then show ?thesis using nlf cr True p by (simp add: t quotechar_plain split: sum.splits)
        next
          case (Cons x xs)
          then show ?thesis using nlf cr True p by (simp add: t quotechar_plain split: sum.splits)
        qed
      next
        case False
        have "feed r ne (c # t) = feed ?r1 False (d # cs)"
          using nlf cr False p el by (simp add: t quotechar_plain)
        then show ?thesis using feed_flag [of "d # cs" ?r1 False ne'] by (simp add: t)
      qed
    next
      case False
      have "feed r ne (c # t) = feed ?r1 True (d # cs)"
        using nlf False p by (simp add: t)
      then show ?thesis using feed_flag [of "d # cs" ?r1 True ne'] by (simp add: t)
    qed
  qed
qed

lemma feed_quoted:
  "p_state r = IN_QUOTED_FIELD \<Longrightarrow> length (p_field r) + length f \<le> field_limit \<Longrightarrow> t \<noteq> [] \<Longrightarrow>
     feed r ne (concat (map (\<lambda>c. if c = quotechar then [c, c] else [c]) f) @ t) =
     feed (r\<lparr>p_field := p_field r @ f\<rparr>) ne' t"
proof (induction f arbitrary: r ne)
  case Nil
  then show ?case using feed_flag [of t r ne ne'] by simp
next
  case (Cons c f)
  let ?esc = "concat (map (\<lambda>c. if c = quotechar then [c, c] else [c]) f)"
  let ?r2 = "r\<lparr>p_field := p_field r @ [c]\<rparr>"
  have s2: "p_state ?r2 = IN_QUOTED_FIELD" using Cons.prems(1) by simp
  have l2: "length (p_field ?r2) + length f \<le> field_limit" using Cons.prems(2) by simp
  have lt: "length (p_field r) < field_limit" using Cons.prems(2) by simp
  have ih: "feed ?r2 True (?esc @ t) = feed (r\<lparr>p_field := p_field r @ c # f\<rparr>) ne' t"
    using Cons.IH [OF s2 l2 Cons.prems(3), of True] by simp
  show ?case
  proof (cases "c = quotechar")
    case True
    obtain s fs fl where r: "r = \<lparr>p_state = s, p_fields = fs, p_field = fl\<rparr>" by (cases r)
    have a: "parse_process_char r (Some quotechar) = Inr (r\<lparr>p_state := QUOTE_IN_QUOTED_FIELD\<rparr>)"
      using Cons.prems(1) by (simp add: parse_process_char_def)
    have b: "parse_process_char (r\<lparr>p_state := QUOTE_IN_QUOTED_FIELD\<rparr>) (Some quotechar) = Inr ?r2"
      using Cons.prems(1) lt True by (simp add: parse_process_char_def parse_add_char_def r)
    have "feed r ne (quotechar # quotechar # ?esc @ t) = feed ?r2 True (?esc @ t)"
      by (simp add: feed_char quotechar_plain a b)
    with ih True show ?thesis by simp
  next
    case False
    have ne: "?esc @ t \<noteq> []" using Cons.prems(3) by simp
    have "feed r ne (c # ?esc @ t) = feed ?r2 True (?esc @ t)"
      by (rule feed_quoted_char [OF Cons.prems(1) False ne lt])
    with ih False show ?thesis by simp
  qed
qed

lemma feed_plain:
  "p_state r = IN_FIELD \<Longrightarrow> list_all (\<lambda>c. c \<noteq> delimiter \<and> c \<noteq> CR \<and> c \<noteq> LF) f \<Longrightarrow>
   length (p_field r) + length f \<le> field_limit \<Longrightarrow> t \<noteq> [] \<Longrightarrow>
     feed r ne (f @ t) = feed (r\<lparr>p_field := p_field r @ f\<rparr>) ne' t"
proof (induction f arbitrary: r ne)
  case Nil
  then show ?case using feed_flag [of t r ne ne'] by simp
next
  case (Cons c f)
  let ?r2 = "r\<lparr>p_field := p_field r @ [c]\<rparr>"
  have c: "c \<noteq> delimiter" "c \<noteq> CR" "c \<noteq> LF" and f: "list_all (\<lambda>c. c \<noteq> delimiter \<and> c \<noteq> CR \<and> c \<noteq> LF) f"
    using Cons.prems(2) by simp_all
  have s2: "p_state ?r2 = IN_FIELD" using Cons.prems(1) by simp
  have l2: "length (p_field ?r2) + length f \<le> field_limit" using Cons.prems(3) by simp
  have a: "parse_process_char r (Some c) = Inr ?r2"
    using Cons.prems(1,3) c by (simp add: parse_process_char_def parse_add_char_def)
  have "feed r ne (c # f @ t) = feed ?r2 True (f @ t)"
    using c by (simp add: feed_char a)
  also have "\<dots> = feed (r\<lparr>p_field := p_field r @ c # f\<rparr>) ne' t"
    using Cons.IH [OF s2 f l2 Cons.prems(4), of True] by simp
  finally show ?case by simp
qed

lemma start_quote:
  "p_state r = START_FIELD \<Longrightarrow> parse_process_char r (Some quotechar) = Inr (r\<lparr>p_state := IN_QUOTED_FIELD\<rparr>)"
  by (simp add: parse_process_char_def start_field_def quotechar_plain)

lemma close_quote:
  "p_state r = IN_QUOTED_FIELD \<Longrightarrow>
     parse_process_char r (Some quotechar) = Inr (r\<lparr>p_state := QUOTE_IN_QUOTED_FIELD\<rparr>)"
  by (simp add: parse_process_char_def)

lemma start_plain:
  "p_state r = START_FIELD \<Longrightarrow> p_field r = [] \<Longrightarrow>
   c \<noteq> delimiter \<Longrightarrow> c \<noteq> quotechar \<Longrightarrow> c \<noteq> CR \<Longrightarrow> c \<noteq> LF \<Longrightarrow>
     parse_process_char r (Some c) = Inr (r\<lparr>p_state := IN_FIELD, p_field := [c]\<rparr>)"
  by (simp add: parse_process_char_def start_field_def parse_add_char_def field_limit_def)

lemma field_body:
  assumes "p_state r = START_FIELD" "p_field r = []" "length f \<le> field_limit" "t \<noteq> []"
  shows "feed r ne (quote_field f @ t) =
         feed (r\<lparr>p_state := (if needs_quotes f then QUOTE_IN_QUOTED_FIELD
                               else if f = [] then START_FIELD else IN_FIELD),
                  p_field := f\<rparr>) True t"
proof (cases "needs_quotes f")
  case True
  let ?esc = "concat (map (\<lambda>c. if c = quotechar then [c, c] else [c]) f)"
  let ?r1 = "r\<lparr>p_state := IN_QUOTED_FIELD\<rparr>"
  have s1: "p_state ?r1 = IN_QUOTED_FIELD" by simp
  have l1: "length (p_field ?r1) + length f \<le> field_limit" using assms(2,3) by simp
  have "feed r ne (quote_field f @ t) = feed r ne (quotechar # ?esc @ quotechar # t)"
    using True by (simp add: quote_field_def)
  also have "\<dots> = feed ?r1 True (?esc @ quotechar # t)"
    by (simp add: feed_char quotechar_plain start_quote [OF assms(1)])
  also have "\<dots> = feed (?r1\<lparr>p_field := p_field ?r1 @ f\<rparr>) True (quotechar # t)"
    by (rule feed_quoted [OF s1 l1]) simp
  also have "\<dots> = feed (r\<lparr>p_state := QUOTE_IN_QUOTED_FIELD, p_field := f\<rparr>) True t"
    using assms(2) by (cases r) (simp add: feed_char quotechar_plain close_quote)
  finally show ?thesis using True by simp
next
  case nq: False
  show ?thesis
  proof (cases f)
    case Nil
    have "r\<lparr>p_state := START_FIELD, p_field := []\<rparr> = r" using assms(1,2) by simp
    then show ?thesis using nq Nil feed_flag [OF assms(4), of r ne True]
      by (simp add: quote_field_def)
  next
    case (Cons c g)
    from nq Cons have c: "c \<noteq> delimiter" "c \<noteq> quotechar" "c \<noteq> CR" "c \<noteq> LF"
      and g: "list_all (\<lambda>c. c \<noteq> delimiter \<and> c \<noteq> CR \<and> c \<noteq> LF) g"
      by (auto simp: needs_quotes_def list_all_iff list_ex_iff)
    let ?r1 = "r\<lparr>p_state := IN_FIELD, p_field := [c]\<rparr>"
    have s1: "p_state ?r1 = IN_FIELD" by simp
    have l1: "length (p_field ?r1) + length g \<le> field_limit" using assms(3) Cons by simp
    have "feed r ne (quote_field f @ t) = feed r ne (c # g @ t)"
      using nq Cons by (simp add: quote_field_def)
    also have "\<dots> = feed ?r1 True (g @ t)"
      using c by (simp add: feed_char start_plain [OF assms(1,2)])
    also have "\<dots> = feed (?r1\<lparr>p_field := p_field ?r1 @ g\<rparr>) True t"
      by (rule feed_plain [OF s1 g l1 assms(4)])
    finally show ?thesis using nq Cons by simp
  qed
qed

lemma after_field_delimiter:
  assumes "p_state r = QUOTE_IN_QUOTED_FIELD \<or> p_state r = IN_FIELD \<or> (p_state r = START_FIELD \<and> p_field r = [])"
  shows "parse_process_char r (Some delimiter) =
           Inr (r\<lparr>p_state := START_FIELD, p_fields := p_fields r @ [p_field r], p_field := []\<rparr>)"
  using assms
  by (auto simp: parse_process_char_def start_field_def parse_save_field_def
      quotechar_def delimiter_def LF_def CR_def)

lemma after_field_CR:
  assumes "p_state r = QUOTE_IN_QUOTED_FIELD \<or> p_state r = IN_FIELD \<or> (p_state r = START_FIELD \<and> p_field r = [])"
  shows "parse_process_char r (Some CR) =
           Inr (r\<lparr>p_state := EAT_CRNL, p_fields := p_fields r @ [p_field r], p_field := []\<rparr>)"
  using assms
  by (auto simp: parse_process_char_def start_field_def parse_save_field_def
      quotechar_def delimiter_def LF_def CR_def)

lemma field_delimiter:
  assumes "p_state r = START_FIELD" "p_field r = []" "length f \<le> field_limit"
  shows "feed r ne (quote_field f @ delimiter # t) = feed (r\<lparr>p_fields := p_fields r @ [f]\<rparr>) True t"
proof -
  let ?st = "if needs_quotes f then QUOTE_IN_QUOTED_FIELD else if f = [] then START_FIELD else IN_FIELD"
  let ?r1 = "r\<lparr>p_state := ?st, p_field := f\<rparr>"
  have st: "p_state ?r1 = QUOTE_IN_QUOTED_FIELD \<or> p_state ?r1 = IN_FIELD \<or>
      (p_state ?r1 = START_FIELD \<and> p_field ?r1 = [])"
    by simp
  have e: "r\<lparr>p_state := START_FIELD, p_fields := p_fields r @ [f], p_field := []\<rparr> =
      r\<lparr>p_fields := p_fields r @ [f]\<rparr>"
    using assms(1,2) by simp
  have "feed r ne (quote_field f @ delimiter # t) = feed ?r1 True (delimiter # t)"
    by (rule field_body [OF assms]) simp
  also have "\<dots> = feed (r\<lparr>p_fields := p_fields r @ [f]\<rparr>) True t"
    by (simp add: feed_char quotechar_plain after_field_delimiter [OF st] e)
  finally show ?thesis .
qed

lemma eat_crnl:
  assumes "p_state r = EAT_CRNL"
  shows "parse_process_char r (Some LF) = Inr r"
    and "parse_process_char r None = Inr (r\<lparr>p_state := START_RECORD\<rparr>)"
  using assms by (simp_all add: parse_process_char_def)

lemma field_end:
  assumes "p_state r = START_FIELD" "p_field r = []" "length f \<le> field_limit"
  shows "feed r ne (quote_field f @ CR # LF # rest) =
           (case feed parse_reset False rest of
              Inl e \<Rightarrow> Inl e
            | Inr rows \<Rightarrow> Inr ((p_fields r @ [f]) # rows))"
proof -
  let ?st = "if needs_quotes f then QUOTE_IN_QUOTED_FIELD else if f = [] then START_FIELD else IN_FIELD"
  let ?r1 = "r\<lparr>p_state := ?st, p_field := f\<rparr>"
  let ?r2 = "?r1\<lparr>p_state := EAT_CRNL, p_fields := p_fields ?r1 @ [p_field ?r1], p_field := []\<rparr>"
  have st: "p_state ?r1 = QUOTE_IN_QUOTED_FIELD \<or> p_state ?r1 = IN_FIELD \<or>
      (p_state ?r1 = START_FIELD \<and> p_field ?r1 = [])"
    by simp
  have s2: "p_state ?r2 = EAT_CRNL" by simp
  have "feed r ne (quote_field f @ CR # LF # rest) = feed ?r1 True (CR # LF # rest)"
    by (rule field_body [OF assms]) simp
  also have "\<dots> = end_line ?r2 (\<lambda>r'. feed r' False rest)"
    by (simp add: after_field_CR [OF st] eat_crnl quotechar_plain)
  also have "\<dots> = (case feed parse_reset False rest of
              Inl e \<Rightarrow> Inl e
            | Inr rows \<Rightarrow> Inr ((p_fields r @ [f]) # rows))"
    unfolding end_line_def eat_crnl(2) [OF s2] by (simp split: sum.splits)
  finally show ?thesis .
qed

lemma join_fields_Cons:
  "join_fields (x # xs) = x @ (if xs = [] then [] else delimiter # join_fields xs)"
  by (cases xs) simp_all

lemma fields_end:
  "p_state r = START_FIELD \<Longrightarrow> p_field r = [] \<Longrightarrow> fs \<noteq> [] \<Longrightarrow>
   list_all (\<lambda>f. length f \<le> field_limit) fs \<Longrightarrow>
     feed r ne (join_fields (map quote_field fs) @ CR # LF # rest) =
       (case feed parse_reset False rest of
          Inl e \<Rightarrow> Inl e
        | Inr rows \<Rightarrow> Inr ((p_fields r @ fs) # rows))"
proof (induction fs arbitrary: r ne)
  case Nil
  then show ?case by simp
next
  case (Cons f fs)
  from Cons.prems(4) have f: "length f \<le> field_limit" and fs: "list_all (\<lambda>f. length f \<le> field_limit) fs"
    by simp_all
  show ?case
  proof (cases "fs = []")
    case True
    then show ?thesis using field_end [OF Cons.prems(1,2) f, of ne rest] by (simp split: sum.splits)
  next
    case False
    let ?r1 = "r\<lparr>p_fields := p_fields r @ [f]\<rparr>"
    have s1: "p_state ?r1 = START_FIELD" "p_field ?r1 = []" using Cons.prems(1,2) by simp_all
    have "feed r ne (join_fields (map quote_field (f # fs)) @ CR # LF # rest) =
        feed r ne (quote_field f @ delimiter # join_fields (map quote_field fs) @ CR # LF # rest)"
      using False by (simp add: join_fields_Cons)
    also have "\<dots> = feed ?r1 True (join_fields (map quote_field fs) @ CR # LF # rest)"
      by (rule field_delimiter [OF Cons.prems(1,2) f])
    also have "\<dots> = (case feed parse_reset False rest of
          Inl e \<Rightarrow> Inl e
        | Inr rows \<Rightarrow> Inr ((p_fields ?r1 @ fs) # rows))"
      by (rule Cons.IH [OF s1 False fs])
    finally show ?thesis by (simp split: sum.splits)
  qed
qed

lemma start_record_char:
  "p_state r = START_RECORD \<Longrightarrow> c \<noteq> LF \<Longrightarrow> c \<noteq> CR \<Longrightarrow>
     parse_process_char r (Some c) = parse_process_char (r\<lparr>p_state := START_FIELD\<rparr>) (Some c)"
  by (simp add: parse_process_char_def)

lemma quote_field_hd:
  assumes "f \<noteq> []"
  shows "\<exists>c t. quote_field f = c # t \<and> c \<noteq> LF \<and> c \<noteq> CR"
proof (cases "needs_quotes f")
  case True
  then show ?thesis by (simp add: quote_field_def quotechar_plain)
next
  case False
  with assms show ?thesis
    by (cases f) (auto simp: quote_field_def needs_quotes_def)
qed

text \<open>The reader gives back the record that the writer wrote, when its first field is not empty.\<close>

lemma read_written_record:
  assumes "f \<noteq> []" "list_all (\<lambda>f. length f \<le> field_limit) (f # fs)"
  shows "feed parse_reset False (writerow (f # fs) @ rest) =
           (case feed parse_reset False rest of
              Inl e \<Rightarrow> Inl e
            | Inr rows \<Rightarrow> Inr ((f # fs) # rows))"
proof -
  let ?rec = "join_fields (map quote_field (f # fs))"
  from quote_field_hd [OF assms(1)] obtain c t where q: "quote_field f = c # t" and c: "c \<noteq> LF" "c \<noteq> CR"
    by blast
  then obtain u where u: "?rec = c # u" by (simp add: join_fields_Cons)
  let ?r1 = "parse_reset\<lparr>p_state := START_FIELD\<rparr>"
  have s1: "p_state ?r1 = START_FIELD" "p_field ?r1 = []" by (simp_all add: parse_reset_def)
  have "feed parse_reset False (writerow (f # fs) @ rest) = feed parse_reset False (?rec @ CR # LF # rest)"
    using u by (simp add: writerow_def)
  also have "\<dots> = feed ?r1 False (?rec @ CR # LF # rest)"
    unfolding u using c by (simp add: feed_char start_record_char parse_reset_def)
  also have "\<dots> = (case feed parse_reset False rest of
              Inl e \<Rightarrow> Inl e
            | Inr rows \<Rightarrow> Inr ((p_fields ?r1 @ (f # fs)) # rows))"
    by (rule fields_end [OF s1 _ assms(2)]) simp
  finally show ?thesis by (simp add: parse_reset_def split: sum.splits)
qed

lemma reader_rows_written:
  assumes "f \<noteq> []" "list_all (\<lambda>f. length f \<le> field_limit) (f # fs)"
  shows "reader_rows parse_reset (file_lines (writerow (f # fs))) = Inr [f # fs]"
proof -
  have "reader_rows parse_reset (lines_from [] (writerow (f # fs))) = feed parse_reset (([]::string) \<noteq> []) (writerow (f # fs))"
    using reader_rows_feed [of parse_reset "[]" parse_reset "writerow (f # fs)"] by simp
  also have "\<dots> = Inr [f # fs]"
    using read_written_record [OF assms, of "[]"] by (simp add: parse_reset_def)
  finally show ?thesis by (simp add: file_lines_def)
qed

lemma feed_plain_overflow:
  "p_state r = IN_FIELD \<Longrightarrow> list_all (\<lambda>c. c \<noteq> delimiter \<and> c \<noteq> CR \<and> c \<noteq> LF) f \<Longrightarrow>
   length (p_field r) \<le> field_limit \<Longrightarrow> field_limit < length (p_field r) + length f \<Longrightarrow>
     feed r ne (f @ t) = Inl CsvError"
proof (induction f arbitrary: r ne)
  case Nil
  then show ?case by simp
next
  case (Cons c f)
  have c: "c \<noteq> delimiter" "c \<noteq> CR" "c \<noteq> LF" and f: "list_all (\<lambda>c. c \<noteq> delimiter \<and> c \<noteq> CR \<and> c \<noteq> LF) f"
    using Cons.prems(2) by simp_all
  show ?case
  proof (cases "length (p_field r) = field_limit")
    case True
    then have "parse_process_char r (Some c) = Inl CsvError"
      using Cons.prems(1) c by (simp add: parse_process_char_def parse_add_char_def)
    then show ?thesis using c by (simp add: feed_char)
  next
    case False
    let ?r2 = "r\<lparr>p_field := p_field r @ [c]\<rparr>"
    from False Cons.prems(3) have lt: "length (p_field r) < field_limit" by simp
    have s2: "p_state ?r2 = IN_FIELD" using Cons.prems(1) by simp
    have l2: "length (p_field ?r2) \<le> field_limit" "field_limit < length (p_field ?r2) + length f"
      using lt Cons.prems(4) by simp_all
    have a: "parse_process_char r (Some c) = Inr ?r2"
      using Cons.prems(1) lt c by (simp add: parse_process_char_def parse_add_char_def)
    have "feed r ne (c # f @ t) = feed ?r2 True (f @ t)"
      using c by (simp add: feed_char a)
    also have "\<dots> = Inl CsvError" by (rule Cons.IH [OF s2 f l2])
    finally show ?thesis by simp
  qed
qed

lemma field_overflow:
  assumes "p_state r = START_FIELD" "p_field r = []" "\<not> needs_quotes f" "field_limit < length f"
  shows "feed r ne (quote_field f @ t) = Inl CsvError"
proof -
  from assms(4) obtain c g where f: "f = c # g" by (cases f) auto
  from assms(3) f have c: "c \<noteq> delimiter" "c \<noteq> quotechar" "c \<noteq> CR" "c \<noteq> LF"
    and g: "list_all (\<lambda>c. c \<noteq> delimiter \<and> c \<noteq> CR \<and> c \<noteq> LF) g"
    by (auto simp: needs_quotes_def list_all_iff list_ex_iff)
  let ?r1 = "r\<lparr>p_state := IN_FIELD, p_field := [c]\<rparr>"
  have s1: "p_state ?r1 = IN_FIELD" by simp
  have l1: "length (p_field ?r1) \<le> field_limit" "field_limit < length (p_field ?r1) + length g"
    using assms(4) f by (simp_all add: field_limit_def)
  have "feed r ne (quote_field f @ t) = feed r ne (c # g @ t)"
    using assms(3) f by (simp add: quote_field_def)
  also have "\<dots> = feed ?r1 True (g @ t)"
    using c by (simp add: feed_char start_plain [OF assms(1,2)])
  also have "\<dots> = Inl CsvError" by (rule feed_plain_overflow [OF s1 g l1])
  finally show ?thesis .
qed

subsection \<open>Printing an amount and reading it back\<close>

lemma strip_gen_ends:
  assumes "s \<noteq> []" "\<not> P (hd s)" "\<not> P (last s)"
  shows "rev (dropWhile P (rev (dropWhile P s))) = s"
proof -
  have 1: "dropWhile P s = s" using assms(1,2) by (cases s) simp_all
  from assms(1) obtain xs x where s: "s = xs @ [x]" by (cases s rule: rev_cases) auto
  then have "dropWhile P (rev s) = rev s" using assms(3) by simp
  with 1 show ?thesis by simp
qed

lemma isdigit_plain:
  assumes "isdigit c"
  shows "\<not> isspace c" "\<not> float_space c" "c \<noteq> CHR ''_''" "c \<noteq> CHR ''$''" "c \<noteq> CHR '',''"
    "c \<noteq> CHR ''-''" "c \<noteq> CHR ''+''" "c \<noteq> CHR ''.''" "c \<noteq> CHR ''i''" "c \<noteq> CHR ''n''"
    "lower_char c = c"
  using assms by (auto simp: isdigit_def isspace_def float_space_def lower_char_def isupper_def Let_def)

lemma underscores_ok_none: "CHR ''_'' \<notin> set s \<Longrightarrow> prev \<noteq> Some (CHR ''_'') \<Longrightarrow> underscores_ok prev s"
  by (induction s arbitrary: prev) auto

lemma nat_of_digits_append:
  "nat_of_digits (s @ t) = nat_of_digits s * 10 ^ length t + nat_of_digits t"
proof (induction t rule: rev_induct)
  case Nil
  then show ?case by (simp add: nat_of_digits_def)
next
  case (snoc c t)
  have "nat_of_digits (s @ t @ [c]) = 10 * nat_of_digits (s @ t) + digit_val c"
    using nat_of_digits_snoc [of "s @ t" c] by simp
  then show ?case by (simp add: snoc nat_of_digits_snoc algebra_simps)
qed

lemma not_isdigit_point: "\<not> isdigit (CHR ''.'')"
  by (simp add: isdigit_def)

lemma digits_then_point:
  assumes "list_all isdigit ip"
  shows "takeWhile isdigit (ip @ CHR ''.'' # fp) = ip"
    and "dropWhile isdigit (ip @ CHR ''.'' # fp) = CHR ''.'' # fp"
proof -
  have a: "\<And>x. x \<in> set ip \<Longrightarrow> isdigit x" using assms by (simp add: list_all_iff)
  have "takeWhile isdigit (ip @ CHR ''.'' # fp) = ip @ takeWhile isdigit (CHR ''.'' # fp)"
    by (rule takeWhile_append2) (rule a)
  then show "takeWhile isdigit (ip @ CHR ''.'' # fp) = ip"
    by (simp only: takeWhile.simps not_isdigit_point if_False append_Nil2)
  have "dropWhile isdigit (ip @ CHR ''.'' # fp) = dropWhile isdigit (CHR ''.'' # fp)"
    by (rule dropWhile_append2) (rule a)
  then show "dropWhile isdigit (ip @ CHR ''.'' # fp) = CHR ''.'' # fp"
    by (simp only: dropWhile.simps not_isdigit_point if_False)
qed

lemma all_digits_takeWhile:
  assumes "list_all isdigit fp"
  shows "takeWhile isdigit fp = fp" and "dropWhile isdigit fp = []"
  using assms by (simp_all add: list_all_iff)

lemma parse_decimal_point:
  assumes "ip \<noteq> []" "list_all isdigit ip" "list_all isdigit fp"
  shows "parse_decimal (ip @ CHR ''.'' # fp) = Some (ip, fp, 0)"
  unfolding parse_decimal_def digits_then_point [OF assms(2)] Let_def
  using assms(1) by (simp add: all_digits_takeWhile [OF assms(3)])

lemma decimal_text_chars:
  assumes "list_all isdigit ip" "list_all isdigit fp" "k \<noteq> CHR ''.''" "\<not> isdigit k"
  shows "remove_char k (ip @ CHR ''.'' # fp) = ip @ CHR ''.'' # fp"
proof -
  have "\<And>x. x \<in> set (ip @ CHR ''.'' # fp) \<Longrightarrow> x \<noteq> k"
    using assms by (auto simp: list_all_iff)
  then show ?thesis unfolding remove_char_def by (intro filter_True) blast
qed

lemma decimal_text_ends:
  assumes "ip \<noteq> []" "list_all isdigit ip" "fp \<noteq> []" "list_all isdigit fp"
  shows "isdigit (hd (ip @ CHR ''.'' # fp))" and "isdigit (last (ip @ CHR ''.'' # fp))"
proof -
  from assms(1) obtain c ip' where ip: "ip = c # ip'" by (cases ip) auto
  with assms(2) show "isdigit (hd (ip @ CHR ''.'' # fp))" by simp
  have "last (ip @ CHR ''.'' # fp) = last fp" using assms(3) by simp
  moreover have "isdigit (last fp)" using assms(3,4) by (simp add: list_all_iff)
  ultimately show "isdigit (last (ip @ CHR ''.'' # fp))" by simp
qed

lemma decimal_text_strip:
  assumes "ip \<noteq> []" "list_all isdigit ip" "fp \<noteq> []" "list_all isdigit fp"
  shows "strip (ip @ CHR ''.'' # fp) = ip @ CHR ''.'' # fp"
    and "float_strip (ip @ CHR ''.'' # fp) = ip @ CHR ''.'' # fp"
proof -
  note e = decimal_text_ends [OF assms]
  have ne: "ip @ CHR ''.'' # fp \<noteq> []" by simp
  show "strip (ip @ CHR ''.'' # fp) = ip @ CHR ''.'' # fp"
    unfolding strip_def
    by (rule strip_gen_ends [OF ne isdigit_plain(1) [OF e(1)] isdigit_plain(1) [OF e(2)]])
  show "float_strip (ip @ CHR ''.'' # fp) = ip @ CHR ''.'' # fp"
    unfolding float_strip_def
    by (rule strip_gen_ends [OF ne isdigit_plain(2) [OF e(1)] isdigit_plain(2) [OF e(2)]])
qed

lemma decimal_text_sign:
  assumes "isdigit c"
  shows "split_sign (c # t) = (False, c # t)"
    and "lower (c # t) \<noteq> ''inf''" and "lower (c # t) \<noteq> ''infinity''" and "lower (c # t) \<noteq> ''nan''"
  using isdigit_plain [OF assms] by (simp_all add: split_sign_def lower_def)

text \<open>A decimal with digits on both sides of the point: what \<^verbatim>\<open>float\<close> reads from it.\<close>

lemma decimal_text_float:
  assumes "ip \<noteq> []" "list_all isdigit ip" "fp \<noteq> []" "list_all isdigit fp"
  shows "float_of_str (ip @ CHR ''.'' # fp) =
           Inr (to_double (of_nat (nat_of_digits (ip @ fp)) * pow10 (- int (length fp))))"
proof -
  let ?s = "ip @ CHR ''.'' # fp"
  from assms(1) obtain c ip' where ip: "ip = c # ip'" by (cases ip) auto
  with assms(2) have c: "isdigit c" by simp
  have s: "?s = c # ip' @ CHR ''.'' # fp" by (simp add: ip)
  have us: "remove_char (CHR ''_'') ?s = ?s"
    by (rule decimal_text_chars [OF assms(2,4)]) (simp_all add: isdigit_def)
  have "CHR ''_'' \<notin> set ?s" using assms(2,4) by (auto simp: list_all_iff isdigit_def)
  then have uo: "underscores_ok None ?s" by (rule underscores_ok_none) simp
  have sg: "split_sign ?s = (False, ?s)"
    unfolding s by (rule decimal_text_sign [OF c])
  have lw: "lower ?s \<noteq> ''inf''" "lower ?s \<noteq> ''infinity''" "lower ?s \<noteq> ''nan''"
    unfolding s by (rule decimal_text_sign [OF c])+
  have ne: "?s \<noteq> []" by simp
  have "float_of_str ?s = Inr (to_double (decimal_value (ip, fp, 0)))"
    unfolding float_of_str_def decimal_text_strip(2) [OF assms] Let_def us sg prod.case
      parse_decimal_point [OF assms(1,2,4)]
    using uo lw ne by (simp only: simp_thms if_False if_True option.case)
  then show ?thesis by (simp add: decimal_value_def)
qed

lemma format_2f_parse:
  assumes "0 < q" "round2 (Fin q) = Fin q"
  shows "parse_amount (format_2f (Fin q)) = Inr (Some (Fin q))"
proof -
  define k where "k = nat (round_half_even (q * 100))"
  let ?ip = "digits (k div 100)" and ?fp = "zfill 2 (digits (k mod 100))"
  have q: "\<bar>q\<bar> = q" "\<not> q < 0" using assms(1) by simp_all
  have fmt: "format_2f (Fin q) = ?ip @ CHR ''.'' # ?fp"
    by (simp add: q k_def Let_def)
  have "length (digits (k mod 100)) \<le> 2" by (rule digits_length) simp_all
  then have len: "length ?fp = 2" by (rule zfill_length)
  then have fp: "?fp \<noteq> []" by auto
  have d: "list_all isdigit ?ip" "list_all isdigit ?fp"
    by (simp_all add: digits_all zfill_all)
  have "nat_of_digits (?ip @ ?fp) = k div 100 * 100 + k mod 100"
    by (simp add: nat_of_digits_append len nat_of_digits_digits nat_of_digits_zfill)
  then have val: "nat_of_digits (?ip @ ?fp) = k" by simp
  have "0 \<le> round_half_even (q * 100)" using assms(1) by (intro round_half_even_nonneg) simp
  then have "(of_nat k :: rat) = of_int (round_half_even (q * 100))" by (simp add: k_def)
  then have "to_double (of_nat k * pow10 (- 2)) = round2 (Fin q)"
    by (simp add: pow10_def)
  with assms(2) have "to_double (of_nat k * pow10 (- 2)) = Fin q" by (simp only:)
  then have fl: "float_of_str (?ip @ CHR ''.'' # ?fp) = Inr (Fin q)"
    unfolding decimal_text_float [OF digits_nonempty d(1) fp d(2)] val len by simp
  have rm: "remove_char (CHR '','') (remove_char (CHR ''$'') (?ip @ CHR ''.'' # ?fp)) = ?ip @ CHR ''.'' # ?fp"
    by (simp add: decimal_text_chars [OF d] isdigit_def)
  show ?thesis
    unfolding parse_amount_alt fmt decimal_text_strip(1) [OF digits_nonempty d(1) fp d(2)] rm fl
    using assms by (simp del: round2.simps)
qed

lemma format_2f_inf: "parse_amount (format_2f PInf) = Inr (Some PInf)"
  by (simp add: parse_amount_def strip_eval float_eval)

lemma amount_round_trip:
  assumes "gt_zero a" "round2 a = a"
  shows "parse_amount (format_2f a) = Inr (Some a)"
proof (cases a)
  case (Fin q)
  with assms show ?thesis using format_2f_parse [of q] by (simp del: round2.simps format_2f.simps)
next
  case PInf
  then show ?thesis by (simp only: format_2f_inf)
next
  case NInf
  with assms show ?thesis by simp
next
  case NaN
  with assms show ?thesis by simp
qed

lemma to_double_bound:
  assumes "to_double x = Fin q"
  shows "\<bar>q\<bar> < pow2 1024"
proof (cases "x = 0")
  case True
  with assms have "q = 0" by (simp add: to_double_def)
  then show ?thesis using pow2_pos [of 1024] by simp
next
  case False
  define e where "e = max (ilog2 \<bar>x\<bar> - 52) (- 1074)"
  define r where "r = of_int (round_half_even (\<bar>x\<bar> / pow2 e)) * pow2 e"
  have "0 \<le> \<bar>x\<bar> / pow2 e" using pow2_pos [of e] by simp
  then have "0 \<le> round_half_even (\<bar>x\<bar> / pow2 e)" by (rule round_half_even_nonneg)
  then have r0: "0 \<le> r" unfolding r_def using pow2_pos [of e] by (simp add: less_imp_le)
  have td: "to_double x = (if pow2 1024 \<le> r then (if x < 0 then NInf else PInf)
              else Fin (if x < 0 then - r else r))"
    using False unfolding to_double_def Let_def e_def [symmetric] r_def [symmetric] by simp
  with assms have "\<not> pow2 1024 \<le> r" and "q = (if x < 0 then - r else r)"
    by (auto split: if_splits)
  with r0 show ?thesis by (auto split: if_splits)
qed

lemma format_2f_length:
  assumes "0 < q" "round2 (Fin q) = Fin q"
  shows "length (format_2f (Fin q)) \<le> 1027"
proof -
  define k where "k = nat (round_half_even (q * 100))"
  let ?ip = "digits (k div 100)" and ?fp = "zfill 2 (digits (k mod 100))"
  have q: "\<bar>q\<bar> = q" "\<not> q < 0" using assms(1) by simp_all
  have fmt: "format_2f (Fin q) = ?ip @ CHR ''.'' # ?fp"
    by (simp add: q k_def Let_def)
  have "length (digits (k mod 100)) \<le> 2" by (rule digits_length) simp_all
  then have len: "length ?fp = 2" by (rule zfill_length)
  from assms(2) have "to_double (of_int (round_half_even (q * 100)) / 100) = Fin q" by simp
  then have "\<bar>q\<bar> < pow2 1024" by (rule to_double_bound)
  then have qb: "q < 2 ^ 1024" using q by (simp only: pow2_nat) simp
  have "0 \<le> round_half_even (q * 100)" using assms(1) by (intro round_half_even_nonneg) simp
  then have kq: "(of_nat k :: rat) = of_int (round_half_even (q * 100))" by (simp add: k_def)
  have "\<bar>of_int (round_half_even (q * 100)) - q * 100\<bar> \<le> 1 / 2" by (rule round_half_even_dist)
  with kq have "(of_nat k :: rat) \<le> q * 100 + 1 / 2" by linarith
  also have "\<dots> < 2 ^ 1024 * 100 + 1" using qb by simp
  finally have "(of_nat k :: rat) < of_nat (2 ^ 1024 * 100 + 1)" by simp
  then have "k < 2 ^ 1024 * 100 + 1" by (simp only: of_nat_less_iff)
  then have "k div 100 \<le> 2 ^ 1024" by simp
  also have "(2::nat) ^ 1024 < 10 ^ 1024" by (rule power_strict_mono) simp_all
  finally have "length ?ip \<le> 1024" by (rule digits_length) simp
  then show ?thesis unfolding fmt by (simp add: len)
qed

lemma format_2f_fits:
  assumes "gt_zero a" "round2 a = a"
  shows "format_2f a \<noteq> []" and "length (format_2f a) \<le> field_limit"
proof -
  show "format_2f a \<noteq> []" using assms(1) by (cases a) (simp_all add: Let_def)
  show "length (format_2f a) \<le> field_limit"
  proof (cases a)
    case (Fin q)
    with assms have "length (format_2f (Fin q)) \<le> 1027" by (intro format_2f_length) simp_all
    with Fin show ?thesis by (simp add: field_limit_def del: format_2f.simps)
  qed (use assms in \<open>simp_all add: field_limit_def\<close>)
qed

lemma round2_5: "round2 (Fin 5) = Fin 5"
  by (simp add: round_half_even_def to_double_5)

lemma round2_1234_5: "round2 (Fin (2469 / 2)) = Fin (2469 / 2)"
  by (simp add: round_half_even_def to_double_1234_5)

subsection \<open>Canonical dates of the calendar\<close>

lemma strftime_parse:
  assumes "datetime_new y m d = Inr dt" "1000 \<le> y"
  shows "parse_date isoparse (strftime dt) = Inr (Some (strftime dt))"
    and "strftime dt \<noteq> []" and "length (strftime dt) \<le> field_limit"
proof -
  from strftime_shape [OF assms] obtain a b c e where
    a: "isdigit a" and
    s: "strftime dt = [a, b, c, e] @ CHR ''-'' # digit_char (m div 10) # digit_char (m mod 10) #
                          CHR ''-'' # [digit_char (d div 10), digit_char (d mod 10)]"
    by blast
  show ne: "strftime dt \<noteq> []" by (simp add: s)
  show "length (strftime dt) \<le> field_limit" by (simp add: s field_limit_def)
  have "hd (strftime dt) = a" "last (strftime dt) = digit_char (d mod 10)" by (simp_all add: s)
  then have "\<not> isspace (hd (strftime dt))" "\<not> isspace (last (strftime dt))"
    using isdigit_plain(1) [OF a] isdigit_plain(1) [OF isdigit_digit_char] by simp_all
  then have st: "strip (strftime dt) = strftime dt"
    unfolding strip_def by (rule strip_gen_ends [OF ne])
  show "parse_date isoparse (strftime dt) = Inr (Some (strftime dt))"
    unfolding parse_date_def st Let_def using ne
    by (simp add: strptime_strftime [OF assms])
qed

lemma digit_char_digit_val: "isdigit c \<Longrightarrow> digit_char (digit_val c) = c"
proof -
  assume c: "isdigit c"
  then have k: "digit_val c < 10" and o: "48 + digit_val c = (of_char c :: nat)"
    by (auto simp: isdigit_def digit_val_def Let_def)
  show ?thesis using digit_char_eq_iff [OF k, of c] o by simp
qed

lemma digit_val_less: "isdigit c \<Longrightarrow> digit_val c < 10"
  by (auto simp: isdigit_def digit_val_def Let_def)

lemma nat_of_digits_two: "nat_of_digits [a, b] = 10 * digit_val a + digit_val b"
  by (simp add: nat_of_digits_def)

lemma two_digits_printed:
  assumes "isdigit a" "isdigit b"
  shows "zfill 2 (digits (nat_of_digits [a, b])) = [a, b]"
proof -
  let ?n = "10 * digit_val a + digit_val b"
  from assms have l: "digit_val a < 10" "digit_val b < 10" by (simp_all add: digit_val_less)
  then have "?n < 100" "?n div 10 = digit_val a" "?n mod 10 = digit_val b" by auto
  then show ?thesis
    using assms by (simp add: nat_of_digits_two zfill2_digits digit_char_digit_val)
qed

lemma digits_snoc: "0 < n \<Longrightarrow> k < 10 \<Longrightarrow> digits (10 * n + k) = digits n @ [digit_char k]"
  by (subst digits.simps) simp

lemma digits_one: "k < 10 \<Longrightarrow> digits k = [digit_char k]"
  by (subst digits.simps) simp

lemma four_digits_printed:
  assumes "isdigit a" "isdigit b" "isdigit c" "isdigit e" "1000 \<le> nat_of_digits [a, b, c, e]"
  shows "digits (nat_of_digits [a, b, c, e]) = [a, b, c, e]"
proof -
  from assms have l: "digit_val a < 10" "digit_val b < 10" "digit_val c < 10" "digit_val e < 10"
    by (simp_all add: digit_val_less)
  have n: "nat_of_digits [a, b, c, e] = 10 * (10 * (10 * digit_val a + digit_val b) + digit_val c) + digit_val e"
    by (simp add: nat_of_digits_def)
  have a: "0 < digit_val a"
  proof (rule ccontr)
    assume "\<not> 0 < digit_val a"
    then have "digit_val a = 0" by simp
    with assms(5) l show False unfolding n by simp
  qed
  then have p: "0 < 10 * digit_val a + digit_val b" "0 < 10 * (10 * digit_val a + digit_val b) + digit_val c"
    by simp_all
  have "digits (nat_of_digits [a, b, c, e]) =
      [digit_char (digit_val a), digit_char (digit_val b), digit_char (digit_val c), digit_char (digit_val e)]"
    unfolding n digits_snoc [OF p(2) l(4)] digits_snoc [OF p(1) l(3)] digits_snoc [OF a l(2)]
      digits_one [OF l(1)] by simp
  then show ?thesis using assms(1-4) by (simp only: digit_char_digit_val)
qed

lemma canonical_date_shape:
  assumes "canonical_date s"
  shows "\<exists>a b c e f g h i. s = [a, b, c, e, CHR ''-'', f, g, CHR ''-'', h, i] \<and>
           isdigit a \<and> isdigit b \<and> isdigit c \<and> isdigit e \<and> isdigit f \<and> isdigit g \<and> isdigit h \<and> isdigit i"
proof -
  from assms have "length s = 10" by (simp add: canonical_date_def)
  then obtain a b c e p f g q h i where s: "s = [a, b, c, e, p, f, g, q, h, i]"
    by (auto simp: eval_nat_numeral length_Suc_conv)
  with assms show ?thesis by (simp add: canonical_date_def)
qed

lemma valid_date_printed:
  assumes "valid_date s" "1000 \<le> year_of s"
  shows "\<exists>y m d dt. datetime_new y m d = Inr dt \<and> 1000 \<le> y \<and> s = strftime dt"
proof -
  from assms(1) have cd: "canonical_date s" by (simp add: valid_date_def)
  from canonical_date_shape [OF cd] obtain a b c e f g h i where
    s: "s = [a, b, c, e, CHR ''-'', f, g, CHR ''-'', h, i]" and
    dg: "isdigit a" "isdigit b" "isdigit c" "isdigit e" "isdigit f" "isdigit g" "isdigit h" "isdigit i"
    by blast
  let ?y = "nat_of_digits [a, b, c, e]" and ?m = "nat_of_digits [f, g]" and ?d = "nat_of_digits [h, i]"
  have y: "year_of s = ?y" by (simp add: year_of_def s)
  from assms(1) obtain dt where dt: "datetime_new ?y ?m ?d = Inr dt"
    by (auto simp: valid_date_def year_of_def s split: sum.splits)
  then have dt': "dt = \<lparr>year = ?y, month = ?m, day = ?d\<rparr>"
    by (auto simp: datetime_new_def split: if_splits)
  have y4: "1000 \<le> ?y" using assms(2) y by simp
  have "strftime dt = digits ?y @ ''-'' @ zfill 2 (digits ?m) @ ''-'' @ zfill 2 (digits ?d)"
    by (simp add: strftime_def dt')
  also have "\<dots> = s"
    unfolding four_digits_printed [OF dg(1-4) y4] two_digits_printed [OF dg(5,6)]
      two_digits_printed [OF dg(7,8)] by (simp add: s)
  finally show ?thesis using dt y4 by metis
qed

lemma parse_date_0999: "parse_date isoparse ''0999-01-01'' = Inr (Some ''999-01-01'')"
  by (simp add: date_eval)

subsection \<open>Saving and loading one expense\<close>

lemma validate_written_row:
  assumes "parse_date isoparse (date e) = Inr (Some dv)" "dv \<noteq> []"
    and "parse_amount (format_2f (amount e)) = Inr (Some (amount e))"
    and "category e \<noteq> []" "strip (category e) = category e"
    and "description e \<noteq> []" "strip (description e) = description e"
  shows "validate_row isoparse (field_map [''date'', ''amount'', ''category'', ''description''])
           (row_dict [''date'', ''amount'', ''category'', ''description''] (expense_row e)) =
         Inr (Some (e\<lparr>date := dv\<rparr>))"
  unfolding validate_row_def field_map_canonical expense_row_def
  using assms by (simp add: dict_get_def row_dict_four del: format_2f.simps)

lemma file_lines_saved:
  "file_lines (writerow STANDARD_COLUMNS @ body) =
     (''date,amount,category,description'' @ [CR, LF]) # file_lines body"
proof -
  have nl: "[CR, LF] = [LF] \<or> [CR, LF] = [CR, LF]" by simp
  show ?thesis
    unfolding file_lines_def header_text
    using file_lines_header [OF nl, of "''date,amount,category,description''" "[]" body]
    by (simp add: LF_def CR_def)
qed

lemma read_saved_rows:
  "read_expenses isoparse (writerow STANDARD_COLUMNS @ body) =
     (case reader_rows parse_reset (file_lines body) of
        Inl e \<Rightarrow> Inl e
      | Inr rows \<Rightarrow>
          load_rows isoparse (field_map [''date'', ''amount'', ''category'', ''description''])
            [''date'', ''amount'', ''category'', ''description''] (filter (\<lambda>r. r \<noteq> []) rows))"
proof -
  have nl: "[CR, LF] = [LF] \<or> [CR, LF] = [CR, LF]" by simp
  show ?thesis
    by (rule read_after_header [OF header_line_canonical [OF nl] _ file_lines_saved]) simp
qed

lemma read_saved:
  assumes "date e \<noteq> []" "list_all (\<lambda>f. length f \<le> field_limit) (expense_row e)"
  shows "read_expenses isoparse (writerow STANDARD_COLUMNS @ writerow (expense_row e)) =
           load_rows isoparse (field_map [''date'', ''amount'', ''category'', ''description''])
             [''date'', ''amount'', ''category'', ''description''] [expense_row e]"
proof -
  have row: "expense_row e = date e # [format_2f (amount e), category e, description e]"
    by (simp add: expense_row_def)
  have rows: "reader_rows parse_reset (file_lines (writerow (expense_row e))) = Inr [expense_row e]"
    using assms unfolding row by (rule reader_rows_written)
  have "expense_row e \<noteq> []" by (simp add: expense_row_def)
  then show ?thesis unfolding read_saved_rows rows by simp
qed

lemma load_saved_text:
  "load_expenses isoparse (save_expenses [e] fs path) path =
     (save_expenses [e] fs path,
      read_expenses isoparse (writerow STANDARD_COLUMNS @ writerow (expense_row e)))"
proof -
  have s: "save_expenses [e] fs path = fs(path \<mapsto> writerow STANDARD_COLUMNS @ writerow (expense_row e))"
    by (simp add: save_expenses_def)
  have ne: "writerow STANDARD_COLUMNS @ writerow (expense_row e) \<noteq> []"
    by (simp add: header_text)
  show ?thesis unfolding s load_expenses_present [OF ne] ..
qed

lemma load_saved:
  assumes "parse_date isoparse (date e) = Inr (Some dv)" "dv \<noteq> []"
    and "date e \<noteq> []" "length (date e) \<le> field_limit"
    and "gt_zero (amount e)" "round2 (amount e) = amount e"
    and "category e \<noteq> []" "strip (category e) = category e" "length (category e) \<le> field_limit"
    and "description e \<noteq> []" "strip (description e) = description e"
      "length (description e) \<le> field_limit"
  shows "load_expenses isoparse (save_expenses [e] fs path) path =
           (save_expenses [e] fs path, Inr [e\<lparr>date := dv\<rparr>])"
proof -
  note ff = format_2f_fits [OF assms(5,6)]
  have fit: "list_all (\<lambda>f. length f \<le> field_limit) (expense_row e)"
    using assms(4,9,12) ff(2) by (simp add: expense_row_def del: format_2f.simps)
  have v: "validate_row isoparse (field_map [''date'', ''amount'', ''category'', ''description''])
           (row_dict [''date'', ''amount'', ''category'', ''description''] (expense_row e)) =
         Inr (Some (e\<lparr>date := dv\<rparr>))"
    by (rule validate_written_row [OF assms(1,2) amount_round_trip [OF assms(5,6)] assms(7,8,10,11)])
  have r: "read_expenses isoparse (writerow STANDARD_COLUMNS @ writerow (expense_row e)) =
      Inr [e\<lparr>date := dv\<rparr>]"
    unfolding read_saved [OF assms(3) fit] by (simp add: v)
  show ?thesis unfolding load_saved_text r ..
qed

lemma save_load_printed_date:
  assumes "datetime_new y m d = Inr dt" "1000 \<le> y" "date e = strftime dt"
    and "gt_zero (amount e)" "round2 (amount e) = amount e"
    and "category e \<noteq> []" "strip (category e) = category e" "length (category e) \<le> field_limit"
    and "description e \<noteq> []" "strip (description e) = description e"
      "length (description e) \<le> field_limit"
  shows "load_expenses isoparse (save_expenses [e] fs path) path = (save_expenses [e] fs path, Inr [e])"
proof -
  note sp = strftime_parse(1) [OF assms(1,2), of isoparse, folded assms(3)]
    strftime_parse(2) [OF assms(1,2), folded assms(3)] strftime_parse(3) [OF assms(1,2), folded assms(3)]
  show ?thesis
    using load_saved [OF sp(1,2,2,3) assms(4-11), of fs path] by simp
qed

text \<open>A description longer than the field size limit is written, and the reader refuses it.\<close>

lemma read_saved_overflow:
  assumes "date e \<noteq> []" "length (date e) \<le> field_limit" "length (format_2f (amount e)) \<le> field_limit"
    and "length (category e) \<le> field_limit"
    and "\<not> needs_quotes (description e)" "field_limit < length (description e)"
  shows "read_expenses isoparse (writerow STANDARD_COLUMNS @ writerow (expense_row e)) = Inl CsvError"
proof -
  let ?a = "format_2f (amount e)"
  let ?rec = "quote_field (date e) @ delimiter # quote_field ?a @ delimiter #
      quote_field (category e) @ delimiter # quote_field (description e)"
  from quote_field_hd [OF assms(1)] obtain c t where q: "quote_field (date e) = c # t"
    and c: "c \<noteq> LF" "c \<noteq> CR"
    by blast
  have w: "writerow (expense_row e) = ?rec @ [CR, LF]"
    using q by (simp add: writerow_def expense_row_def del: format_2f.simps)
  let ?r0 = "parse_reset\<lparr>p_state := START_FIELD\<rparr>"
  let ?r1 = "?r0\<lparr>p_fields := p_fields ?r0 @ [date e]\<rparr>"
  let ?r2 = "?r1\<lparr>p_fields := p_fields ?r1 @ [?a]\<rparr>"
  let ?r3 = "?r2\<lparr>p_fields := p_fields ?r2 @ [category e]\<rparr>"
  have s0: "p_state ?r0 = START_FIELD" "p_field ?r0 = []" by (simp_all add: parse_reset_def)
  have s1: "p_state ?r1 = START_FIELD" "p_field ?r1 = []" by (simp_all add: parse_reset_def)
  have s2: "p_state ?r2 = START_FIELD" "p_field ?r2 = []" by (simp_all add: parse_reset_def)
  have s3: "p_state ?r3 = START_FIELD" "p_field ?r3 = []" by (simp_all add: parse_reset_def)
  have "feed parse_reset False (?rec @ [CR, LF]) = feed ?r0 False (?rec @ [CR, LF])"
    unfolding q using c by (simp add: feed_char start_record_char parse_reset_def)
  also have "\<dots> = feed ?r0 False (quote_field (date e) @ delimiter # (quote_field ?a @ delimiter #
      quote_field (category e) @ delimiter # quote_field (description e) @ [CR, LF]))"
    by simp
  also have "\<dots> = feed ?r1 True (quote_field ?a @ delimiter #
      (quote_field (category e) @ delimiter # quote_field (description e) @ [CR, LF]))"
    by (rule field_delimiter [OF s0 assms(2)])
  also have "\<dots> = feed ?r2 True (quote_field (category e) @ delimiter #
      (quote_field (description e) @ [CR, LF]))"
    by (rule field_delimiter [OF s1 assms(3)])
  also have "\<dots> = feed ?r3 True (quote_field (description e) @ [CR, LF])"
    by (rule field_delimiter [OF s2 assms(4)])
  also have "\<dots> = Inl CsvError"
    by (rule field_overflow [OF s3 assms(5,6)])
  finally have "feed parse_reset False (writerow (expense_row e)) = Inl CsvError"
    unfolding w .
  then have "reader_rows parse_reset (file_lines (writerow (expense_row e))) = Inl CsvError"
    unfolding file_lines_def
    using reader_rows_feed [of parse_reset "[]" parse_reset "writerow (expense_row e)"] by simp
  then show ?thesis unfolding read_saved_rows by simp
qed

lemma strip_replicate_a: "0 < n \<Longrightarrow> strip (replicate n (CHR ''a'')) = replicate n (CHR ''a'')"
  unfolding strip_def by (rule strip_gen_ends) (simp_all add: isspace_def)

text \<open>
  Claim C1, as stated: for every expense with a date in the canonical form, a strictly
  positive amount that is rounded to two decimal places, and a non-empty trimmed category
  and description, loading the file that saving the one expense wrote gives that expense
  back. Two such expenses do not come back. The expense of the date \<^verbatim>\<open>0999-01-01\<close> is
  loaded with the date \<^verbatim>\<open>999-01-01\<close>: the date parser prints a year below 1000 without
  its leading zeros (claim C5). The expense with a description of 131073 characters is
  written in full, and the csv reader, whose fields hold at most 131072 characters, ends
  the load with \<^verbatim>\<open>_csv.Error\<close>.
\<close>

theorem save_load_round_trip_counterexample:
  "snd (load_expenses Map.empty
          (save_expenses [\<lparr>date = ''0999-01-01'', amount = Fin 5, category = ''food'', description = ''lunch''\<rparr>]
             Map.empty ''expenses.csv'')
          ''expenses.csv'') =
     Inr [\<lparr>date = ''999-01-01'', amount = Fin 5, category = ''food'', description = ''lunch''\<rparr>] \<and>
   snd (load_expenses Map.empty
          (save_expenses [\<lparr>date = ''0999-01-01'', amount = Fin 5, category = ''food'', description = ''lunch''\<rparr>]
             Map.empty ''expenses.csv'')
          ''expenses.csv'') \<noteq>
     Inr [\<lparr>date = ''0999-01-01'', amount = Fin 5, category = ''food'', description = ''lunch''\<rparr>] \<and>
   snd (load_expenses Map.empty
          (save_expenses [\<lparr>date = ''2024-01-01'', amount = Fin 5, category = ''food'',
                           description = replicate 131073 (CHR ''a'')\<rparr>]
             Map.empty ''expenses.csv'')
          ''expenses.csv'') = Inl CsvError \<and>
   canonical_date ''0999-01-01'' \<and> canonical_date ''2024-01-01'' \<and>
   gt_zero (Fin 5) \<and> round2 (Fin 5) = Fin 5 \<and> strip ''food'' = ''food'' \<and> strip ''lunch'' = ''lunch'' \<and>
   strip (replicate 131073 (CHR ''a'')) = replicate 131073 (CHR ''a'')"
proof -
  let ?e1 = "\<lparr>date = ''0999-01-01'', amount = Fin 5, category = ''food'', description = ''lunch''\<rparr>"
  let ?e2 = "\<lparr>date = ''2024-01-01'', amount = Fin 5, category = ''food'',
               description = replicate 131073 (CHR ''a'')\<rparr>"
  have g: "gt_zero (Fin 5)" by simp
  have s: "strip ''food'' = ''food''" "strip ''lunch'' = ''lunch''" by (simp_all add: strip_eval)
  have 1: "load_expenses Map.empty (save_expenses [?e1] Map.empty ''expenses.csv'') ''expenses.csv'' =
      (save_expenses [?e1] Map.empty ''expenses.csv'', Inr [?e1\<lparr>date := ''999-01-01''\<rparr>])"
    by (rule load_saved) (simp_all add: parse_date_0999 round_half_even_def to_double_5 s field_limit_def)
  have fit: "length (format_2f (amount ?e2)) \<le> field_limit"
    by (rule format_2f_fits) (simp_all add: round_half_even_def to_double_5)
  have "read_expenses Map.empty (writerow STANDARD_COLUMNS @ writerow (expense_row ?e2)) = Inl CsvError"
    by (rule read_saved_overflow [OF _ _ fit])
      (simp_all add: field_limit_def needs_quotes_def list_ex_iff quotechar_def delimiter_def CR_def LF_def)
  then have 2: "snd (load_expenses Map.empty (save_expenses [?e2] Map.empty ''expenses.csv'') ''expenses.csv'') =
      Inl CsvError"
    unfolding load_saved_text by simp
  have c: "canonical_date ''0999-01-01''" "canonical_date ''2024-01-01''"
    by (simp_all add: canonical_date_def isdigit_def)
  have r: "strip (replicate 131073 (CHR ''a'')) = replicate 131073 (CHR ''a'')"
    by (rule strip_replicate_a) simp
  from 1 have a1: "snd (load_expenses Map.empty (save_expenses [?e1] Map.empty ''expenses.csv'') ''expenses.csv'') =
      Inr [\<lparr>date = ''999-01-01'', amount = Fin 5, category = ''food'', description = ''lunch''\<rparr>]"
    by simp
  show ?thesis
    unfolding a1 2 using g s c r round2_5 by simp
qed

text \<open>
  Claim C1, amended: for every expense whose date is the canonical text of a date of the
  calendar with a year from 1000 on, whose amount is strictly positive and is its own
  rounding to two decimal places, and whose category and description are non-empty,
  trimmed and at most 131072 characters long, loading the file that saving the one
  expense wrote returns exactly that expense, and the file stays as it was saved.
\<close>

theorem save_load_round_trip:
  assumes "valid_date (date e)" "1000 \<le> year_of (date e)"
    and "gt_zero (amount e)" "round2 (amount e) = amount e"
    and "category e \<noteq> []" "strip (category e) = category e" "length (category e) \<le> field_limit"
    and "description e \<noteq> []" "strip (description e) = description e"
      "length (description e) \<le> field_limit"
  shows "load_expenses isoparse (save_expenses [e] fs path) path = (save_expenses [e] fs path, Inr [e])"
proof -
  from valid_date_printed [OF assms(1,2)] obtain y m d dt where
    "datetime_new y m d = Inr dt" "1000 \<le> y" "date e = strftime dt"
    by blast
  then show ?thesis using assms(3-10) by (rule save_load_printed_date)
qed

theorem save_load_round_trip_witness:
  "valid_date ''2024-02-29'' \<and> year_of ''2024-02-29'' = 2024 \<and>
   round2 (Fin (2469 / 2)) = Fin (2469 / 2) \<and>
   strip ''food, drink'' = ''food, drink'' \<and>
   save_expenses [\<lparr>date = ''2024-02-29'', amount = Fin (2469 / 2), category = ''food, drink'',
                    description = ''lunch'' @ [CR, LF, quotechar] @ ''special'' @ [quotechar]\<rparr>]
     Map.empty ''expenses.csv'' =
     [''expenses.csv'' \<mapsto>
        ''date,amount,category,description'' @ [CR, LF] @
        ''2024-02-29,1234.50,'' @ [quotechar] @ ''food, drink'' @ [quotechar] @ '','' @
        [quotechar] @ ''lunch'' @ [CR, LF, quotechar, quotechar] @ ''special'' @ [quotechar, quotechar, quotechar] @
        [CR, LF]] \<and>
   load_expenses Map.empty
     (save_expenses [\<lparr>date = ''2024-02-29'', amount = Fin (2469 / 2), category = ''food, drink'',
                      description = ''lunch'' @ [CR, LF, quotechar] @ ''special'' @ [quotechar]\<rparr>]
        Map.empty ''expenses.csv'')
     ''expenses.csv'' =
     (save_expenses [\<lparr>date = ''2024-02-29'', amount = Fin (2469 / 2), category = ''food, drink'',
                      description = ''lunch'' @ [CR, LF, quotechar] @ ''special'' @ [quotechar]\<rparr>]
        Map.empty ''expenses.csv'',
      Inr [\<lparr>date = ''2024-02-29'', amount = Fin (2469 / 2), category = ''food, drink'',
             description = ''lunch'' @ [CR, LF, quotechar] @ ''special'' @ [quotechar]\<rparr>])"
proof -
  let ?e = "\<lparr>date = ''2024-02-29'', amount = Fin (2469 / 2), category = ''food, drink'',
              description = ''lunch'' @ [CR, LF, quotechar] @ ''special'' @ [quotechar]\<rparr>"
  have v: "valid_date ''2024-02-29''"
    by (simp add: valid_date_def canonical_date_def year_of_def isdigit_def nat_of_digits_def digit_val_def
        datetime_new_def days_in_month_def is_leap_def)
  have y: "year_of ''2024-02-29'' = 2024"
    by (simp add: year_of_def nat_of_digits_def digit_val_def)
  have s: "strip ''food, drink'' = ''food, drink''"
    "strip (''lunch'' @ [CR, LF, quotechar] @ ''special'' @ [quotechar]) =
       ''lunch'' @ [CR, LF, quotechar] @ ''special'' @ [quotechar]"
    by (simp_all add: strip_eval CR_def LF_def quotechar_def)
  have w: "save_expenses [?e] Map.empty ''expenses.csv'' =
     [''expenses.csv'' \<mapsto>
        ''date,amount,category,description'' @ [CR, LF] @
        ''2024-02-29,1234.50,'' @ [quotechar] @ ''food, drink'' @ [quotechar] @ '','' @
        [quotechar] @ ''lunch'' @ [CR, LF, quotechar, quotechar] @ ''special'' @ [quotechar, quotechar, quotechar] @
        [CR, LF]]"
    unfolding save_expenses_def expense_row_def header_text
    by (simp add: format_1234_5 writerow_def quote_field_def needs_quotes_def
        quotechar_def delimiter_def CR_def LF_def del: format_2f.simps)
  have "load_expenses Map.empty (save_expenses [?e] Map.empty ''expenses.csv'') ''expenses.csv'' =
      (save_expenses [?e] Map.empty ''expenses.csv'', Inr [?e])"
    by (rule save_load_round_trip)
      (simp_all add: v y round_half_even_def to_double_1234_5 s [simplified] field_limit_def)
  with v y s(1) w round2_1234_5 show ?thesis by (simp only: simp_thms)
qed

end
